theory Spec2Isabelle
  imports Main "HOL-Library.Word"
begin

section \<open>The board: peripherals, clocks and the bootstrap of \<open>main.cpp\<close>\<close>

text \<open>
  \<open>main.cpp\<close> is the std::thread example of the FreeRTOS port: \<open>print_time\<close>,
  the three task bodies and \<open>setup\<close>. Every call that leaves the file (Serial, pins,
  \<open>millis\<close>, the real-time clock, the FreeRTOS kernel) is modelled by its effect on a
  board state and by an entry in a trace of calls, in program order.
\<close>

type_synonym u32 = "32 word"

datatype level = LOW | HIGH

datatype pin_mode = INPUT | OUTPUT

datatype entry = Task1 | Task2 | Task3

datatype lifecycle = Uninitialized | Started

record task =
  entry_of :: entry
  name_of :: string
  stack_depth :: u32
  priority :: u32

datatype event =
    SerialBegin nat
  | PinMode nat pin_mode
  | DigitalWriteFast nat level
  | DigitalWrite nat level
  | Millis u32
  | Println string
  | Print string
  | Printf string "u32 list"
  | Flush
  | TaskCreate entry string u32 u32
  | SyncRtc
  | RtcGet
  | RtcSet u32
  | GetTimeOfDay
  | TaskDelay u32
  | SleepFor nat
  | StartScheduler
  | TaskSuspend

text \<open>
  What the file takes from its headers and from the hardware. \<open>millis_at k\<close> is the
  value the \<open>k\<close>-th call of \<open>millis()\<close> returns. \<open>strftime_c buf max fmt t\<close> is
  \<open>std::strftime\<close> on the broken-down \<open>std::localtime\<close> of \<open>t\<close>: the number it
  returns and the buffer it leaves. The other fields are the macros and constants of
  \<open>arduino_freertos.h\<close> and of the compiler.
\<close>

record platform =
  millis_at :: "nat \<Rightarrow> u32"
  strftime_c :: "string \<Rightarrow> nat \<Rightarrow> string \<Rightarrow> u32 \<Rightarrow> nat \<times> string"
  LED_BUILTIN :: nat
  configMAX_PRIORITIES :: u32
  pdMS_TO_TICKS :: "u32 \<Rightarrow> u32"
  tskKERNEL_VERSION_NUMBER :: string
  gcc_VERSION :: string
  NEWLIB_VERSION :: string
  build_DATE :: string

record board =
  polls :: nat
  pin_modes :: "nat \<Rightarrow> pin_mode option"
  pin_levels :: "nat \<Rightarrow> level option"
  tasks :: "task list"
  rtc :: u32
  sys_time :: u32
  scheduler :: lifecycle
  tick_count :: nat
  trace :: "event list"

definition power_on :: "u32 \<Rightarrow> board" where
  "power_on r = \<lparr>polls = 0, pin_modes = (\<lambda>_. None), pin_levels = (\<lambda>_. None), tasks = [],
     rtc = r, sys_time = 0, scheduler = Uninitialized, tick_count = 0, trace = []\<rparr>"

definition emit :: "event \<Rightarrow> board \<Rightarrow> board" where
  "emit e s = s\<lparr>trace := trace s @ [e]\<rparr>"

subsection \<open>Serial, pins and clocks\<close>

definition Serial_begin :: "nat \<Rightarrow> board \<Rightarrow> board" where
  "Serial_begin baud s = emit (SerialBegin baud) s"

definition Serial_println :: "string \<Rightarrow> board \<Rightarrow> board" where
  "Serial_println txt s = emit (Println txt) s"

definition Serial_print :: "string \<Rightarrow> board \<Rightarrow> board" where
  "Serial_print txt s = emit (Print txt) s"

definition Serial_flush :: "board \<Rightarrow> board" where
  "Serial_flush s = emit Flush s"

definition pinMode :: "nat \<Rightarrow> pin_mode \<Rightarrow> board \<Rightarrow> board" where
  "pinMode p m s = emit (PinMode p m) (s\<lparr>pin_modes := (pin_modes s)(p := Some m)\<rparr>)"

definition digitalWriteFast :: "nat \<Rightarrow> level \<Rightarrow> board \<Rightarrow> board" where
  "digitalWriteFast p v s =
     emit (DigitalWriteFast p v) (s\<lparr>pin_levels := (pin_levels s)(p := Some v)\<rparr>)"

definition digitalWrite :: "nat \<Rightarrow> level \<Rightarrow> board \<Rightarrow> board" where
  "digitalWrite p v s =
     emit (DigitalWrite p v) (s\<lparr>pin_levels := (pin_levels s)(p := Some v)\<rparr>)"

text \<open>One call of \<open>millis()\<close>: the reading, and the board with one more poll.\<close>

definition millis :: "platform \<Rightarrow> board \<Rightarrow> u32 \<times> board" where
  "millis hw s =
     (millis_at hw (polls s), emit (Millis (millis_at hw (polls s))) (s\<lparr>polls := Suc (polls s)\<rparr>))"

definition rtc_get :: "board \<Rightarrow> u32 \<times> board" where
  "rtc_get s = (rtc s, emit RtcGet s)"

definition rtc_set :: "u32 \<Rightarrow> board \<Rightarrow> board" where
  "rtc_set t s = emit (RtcSet t) (s\<lparr>rtc := t\<rparr>)"

text \<open>
  Modelled from the spec: \<open>freertos::clock::sync_rtc\<close> is not in the example's source.
  The spec gives the real-time clock source the interface \<open>read() -> epoch_seconds\<close>,
  \<open>sync(local_clock)\<close>: a synchronization sets the local time base to the seconds the
  real-time clock holds. \<open>gettimeofday\<close> reads that time base.
\<close>

definition sync_rtc :: "board \<Rightarrow> board" where
  "sync_rtc s = emit SyncRtc (s\<lparr>sys_time := rtc s\<rparr>)"

definition gettimeofday :: "board \<Rightarrow> u32 \<times> board" where
  "gettimeofday s = (sys_time s, emit GetTimeOfDay s)"

definition vTaskDelay :: "u32 \<Rightarrow> board \<Rightarrow> board" where
  "vTaskDelay n s = emit (TaskDelay n) s"

text \<open>
  \<open>xTaskCreate\<close> registers a task with the kernel. \<open>setup\<close> discards the code it
  returns, so the model keeps no failure branch: the call is recorded and the task listed.
\<close>

definition xTaskCreate :: "entry \<Rightarrow> string \<Rightarrow> u32 \<Rightarrow> u32 \<Rightarrow> board \<Rightarrow> board" where
  "xTaskCreate e n depth prio s =
     emit (TaskCreate e n depth prio)
       (s\<lparr>tasks := tasks s @ [\<lparr>entry_of = e, name_of = n, stack_depth = depth, priority = prio\<rparr>]\<rparr>)"

subsection \<open>\<open>print_time\<close>\<close>

definition NUL :: char where
  "NUL = CHR 0x00"

definition c_str :: "string \<Rightarrow> string" where
  "c_str buf = takeWhile (\<lambda>c. c \<noteq> NUL) buf"

definition print_time :: "platform \<Rightarrow> board \<Rightarrow> bool \<times> board" where
  "print_time hw s =
     (let tmp = replicate 32 NUL;
          (t, s1) = gettimeofday s;
          (n, tmp') = strftime_c hw tmp (length tmp) ''%c UTC'' t
      in if n > 0 then (True, Serial_println (c_str tmp') s1) else (False, s1))"

subsection \<open>\<open>task1\<close>: the LED\<close>

definition task1_body :: "platform \<Rightarrow> board \<Rightarrow> board" where
  "task1_body hw s =
     (let s1 = digitalWrite (LED_BUILTIN hw) LOW s;
          s2 = vTaskDelay (pdMS_TO_TICKS hw 250) s1;
          s3 = digitalWrite (LED_BUILTIN hw) HIGH s2;
          s4 = vTaskDelay (pdMS_TO_TICKS hw 250) s3
      in s4)"

text \<open>
  The loop \<open>while (true) { ... }\<close> of \<open>task1\<close>, run for at most \<open>n\<close> rounds.
  \<open>Running s\<close>: the rounds are used up and the loop is still going, with the board in
  state \<open>s\<close>. \<open>Returned s\<close>: the function has returned.
\<close>

datatype 'a run = Running 'a | Returned 'a

primrec task1 :: "nat \<Rightarrow> platform \<Rightarrow> board \<Rightarrow> board run" where
  "task1 0 hw s = Running s"
| "task1 (Suc n) hw s = (if True then task1 n hw (task1_body hw s) else Returned s)"

subsection \<open>\<open>setup\<close>\<close>

definition CR :: char where
  "CR = CHR 0x0D"

definition LF :: char where
  "LF = CHR 0x0A"

definition banner :: "platform \<Rightarrow> string" where
  "banner hw = [CR, LF] @ ''Booting FreeRTOS kernel '' @ tskKERNEL_VERSION_NUMBER hw
     @ ''. Built by gcc '' @ gcc_VERSION hw @ '' (newlib '' @ NEWLIB_VERSION hw @ '') on ''
     @ build_DATE hw @ ''. ***'' @ [CR, LF]"

text \<open>The loop \<open>while (::millis() < 2'000) {}\<close>: it returns only once a reading is not
  below 2000, and not at all if no reading ever is.\<close>

partial_function (option) wait_boot :: "platform \<Rightarrow> board \<Rightarrow> board option" where
  "wait_boot hw s =
     (if fst (millis hw s) < 2000 then wait_boot hw (snd (millis hw s))
      else Some (snd (millis hw s)))"

declare wait_boot.simps [code]

text \<open>
  Modelled from the spec: \<open>vTaskStartScheduler\<close> is the kernel's, not in the example's
  source. The spec: \<open>start()\<close> transfers control permanently, the Scheduler starts only
  once and runs indefinitely, with no teardown path. The kernel takes the board over and
  dispatches tick after tick; there is no branch that leaves the loop.
\<close>

definition scheduler_enter :: "board \<Rightarrow> board" where
  "scheduler_enter s = emit StartScheduler (s\<lparr>scheduler := Started\<rparr>)"

definition dispatch :: "board \<Rightarrow> board" where
  "dispatch s = s\<lparr>tick_count := Suc (tick_count s)\<rparr>"

partial_function (option) scheduler_loop :: "board \<Rightarrow> board option" where
  "scheduler_loop s = scheduler_loop (dispatch s)"

declare scheduler_loop.simps [code]

definition vTaskStartScheduler :: "board \<Rightarrow> board option" where
  "vTaskStartScheduler s = scheduler_loop (scheduler_enter s)"

text \<open>Lines 130 to 155 of \<open>setup\<close>: everything before the call that starts the kernel.\<close>

definition setup_prologue :: "platform \<Rightarrow> board \<Rightarrow> board option" where
  "setup_prologue hw s0 =
     (let s1 = Serial_begin 115200 s0;
          s2 = pinMode (LED_BUILTIN hw) OUTPUT s1;
          s3 = digitalWriteFast (LED_BUILTIN hw) HIGH s2
      in case wait_boot hw s3 of
           None \<Rightarrow> None
         | Some s4 \<Rightarrow>
             (let s5 = Serial_println (banner hw) s4;
                  s6 = xTaskCreate Task1 ''task1'' 128 2 s5;
                  s7 = xTaskCreate Task2 ''task2'' 8192 (configMAX_PRIORITIES hw - 1) s6;
                  s8 = xTaskCreate Task3 ''task3'' 8192 3 s7;
                  s9 = sync_rtc s8;
                  s10 = snd (print_time hw s9);
                  (r, s11) = rtc_get s10;
                  s12 = rtc_set (r + 3600) s11;
                  s13 = sync_rtc s12;
                  s14 = snd (print_time hw s13);
                  s15 = Serial_println ''setup(): starting scheduler...'' s14;
                  s16 = Serial_flush s15
              in Some s16))"

text \<open>\<open>setup\<close>: the prologue, then line 157; what it returns, if it returns.\<close>

definition setup_fn :: "platform \<Rightarrow> board \<Rightarrow> board option" where
  "setup_fn hw s0 =
     (case setup_prologue hw s0 of None \<Rightarrow> None | Some s \<Rightarrow> vTaskStartScheduler s)"

section \<open>Threads, futures and promises: \<open>task3\<close>\<close>

text \<open>
  Modelled from the spec: \<open>std::thread\<close>, \<open>std::async\<close>, \<open>std::future\<close>,
  \<open>std::promise\<close> and \<open>std::packaged_task\<close> are the C++ library on the port's thread
  layer; none of it is in the example's source. The model follows the spec's Thread Handle
  and Deferred Result: a result slot is "not yet available" or holds a value and is written
  at most once; eager dispatch runs the callable on a new Execution Context; deferred
  dispatch stores the callable and runs it on the calling context at the first
  \<open>get()\<close>/\<open>wait()\<close>; a value set at exit becomes visible once the setting context has
  wound down. There is one processor: while the caller runs or is blocked, the other
  contexts advance in an order the caller does not control, which is the \<open>schedule\<close>.
\<close>

type_synonym callable = "unit \<Rightarrow> u32"

datatype launch = Async | Deferred

datatype fault =
    AssertFailed
  | BlockedForever
  | ResultAlreadyConsumed
  | ResultAlreadyProduced

datatype ctx_ref = Caller | Spawned nat

datatype phase = Ready | Unwinding | Finished

text \<open>What a spawned context runs: a callable whose result goes to a slot (the thread of
  an eager \<open>std::async\<close> and of a packaged task), or \<open>p.set_value_at_thread_exit(v)\<close>.\<close>

datatype body = Fulfil nat callable | SetAtExit nat u32

record exec_context =
  body_of :: body
  phase_of :: phase

record runtime =
  slots :: "nat \<Rightarrow> u32 option"
  n_slots :: nat
  deferred :: "nat \<Rightarrow> callable option"
  consumed :: "nat list"
  ctxs :: "exec_context list"
  detached :: "nat list"
  ran :: "(nat \<times> ctx_ref) list"
  faults :: "fault list"
  steps :: nat
  points :: nat
  out :: "event list"

text \<open>The schedule: \<open>burst n\<close> is how many steps the other contexts take at the caller's
  \<open>n\<close>-th scheduling point, \<open>pick n\<close> chooses which context takes the \<open>n\<close>-th step.\<close>

record schedule =
  burst :: "nat \<Rightarrow> nat"
  pick :: "nat \<Rightarrow> nat"

type_synonym 'a action = "runtime \<Rightarrow> fault + ('a \<times> runtime)"

definition boot :: runtime where
  "boot = \<lparr>slots = (\<lambda>_. None), n_slots = 0, deferred = (\<lambda>_. None), consumed = [], ctxs = [],
     detached = [], ran = [], faults = [], steps = 0, points = 0, out = []\<rparr>"

definition then_do :: "'a action \<Rightarrow> ('a \<Rightarrow> 'b action) \<Rightarrow> 'b action" where
  "then_do m k s = (case m s of Inl e \<Rightarrow> Inl e | Inr (x, s') \<Rightarrow> k x s')"

subsection \<open>The other contexts\<close>

definition write_slot :: "nat \<Rightarrow> u32 \<Rightarrow> runtime \<Rightarrow> runtime" where
  "write_slot i v s =
     (if slots s i = None then s\<lparr>slots := (slots s)(i := Some v)\<rparr>
      else s\<lparr>faults := faults s @ [ResultAlreadyProduced]\<rparr>)"

definition log_ran :: "nat \<Rightarrow> ctx_ref \<Rightarrow> runtime \<Rightarrow> runtime" where
  "log_ran i c s = s\<lparr>ran := ran s @ [(i, c)]\<rparr>"

definition set_phase :: "nat \<Rightarrow> phase \<Rightarrow> runtime \<Rightarrow> runtime" where
  "set_phase k p s = s\<lparr>ctxs := (ctxs s)[k := (ctxs s ! k)\<lparr>phase_of := p\<rparr>]\<rparr>"

definition runnable :: "runtime \<Rightarrow> nat list" where
  "runnable s = filter (\<lambda>k. phase_of (ctxs s ! k) \<noteq> Finished) [0..<length (ctxs s)]"

text \<open>One step of context \<open>k\<close>: a ready context runs its body and starts to unwind; an
  unwinding context finishes, and what it set at exit is committed with that.\<close>

definition advance :: "nat \<Rightarrow> runtime \<Rightarrow> runtime" where
  "advance k s =
     (case phase_of (ctxs s ! k) of
        Ready \<Rightarrow>
          (case body_of (ctxs s ! k) of
             Fulfil i f \<Rightarrow> set_phase k Unwinding (log_ran i (Spawned k) (write_slot i (f ()) s))
           | SetAtExit i v \<Rightarrow> set_phase k Unwinding s)
      | Unwinding \<Rightarrow>
          (case body_of (ctxs s ! k) of
             Fulfil i f \<Rightarrow> set_phase k Finished s
           | SetAtExit i v \<Rightarrow> set_phase k Finished (write_slot i v s))
      | Finished \<Rightarrow> s)"

definition sched_step :: "schedule \<Rightarrow> runtime \<Rightarrow> runtime" where
  "sched_step sch s =
     (let r = runnable s; s' = s\<lparr>steps := Suc (steps s)\<rparr>
      in if r = [] then s' else advance (r ! (pick sch (steps s) mod length r)) s')"

definition preempt :: "schedule \<Rightarrow> runtime \<Rightarrow> runtime" where
  "preempt sch s = (sched_step sch ^^ burst sch (points s)) (s\<lparr>points := Suc (points s)\<rparr>)"

fun rank :: "phase \<Rightarrow> nat" where
  "rank Ready = 2"
| "rank Unwinding = 1"
| "rank Finished = 0"

definition work :: "runtime \<Rightarrow> nat" where
  "work s = sum_list (map (\<lambda>c. rank (phase_of c)) (ctxs s))"

text \<open>A blocked caller: the other contexts run until the condition holds. With no
  context left to run, the caller stays blocked.\<close>

function await :: "schedule \<Rightarrow> (runtime \<Rightarrow> bool) \<Rightarrow> runtime \<Rightarrow> fault + runtime" where
  "await sch ready s =
     (if ready s then Inr s
      else if runnable s = [] then Inl BlockedForever
      else await sch ready (sched_step sch s))"
  by pat_completeness auto
termination
proof (relation "measure (\<lambda>(sch, ready, s). work s)")
  show "wf (measure (\<lambda>(sch, ready, s). work s))" by simp
next
  fix sch :: schedule and ready :: "runtime \<Rightarrow> bool" and s :: runtime
  assume "\<not> ready s" and ne: "runnable s \<noteq> []"
  define r where "r = runnable s"
  define k where "k = r ! (pick sch (steps s) mod length r)"
  define s' where "s' = s\<lparr>steps := Suc (steps s)\<rparr>"
  have "k \<in> set r" using ne by (simp add: k_def r_def)
  then have k: "k < length (ctxs s)" and ph: "phase_of (ctxs s ! k) \<noteq> Finished"
    by (auto simp: r_def runnable_def)
  have step: "sched_step sch s = advance k s'"
    using ne by (simp add: sched_step_def Let_def r_def k_def s'_def)
  have c: "ctxs s' = ctxs s" by (simp add: s'_def)
  have upd: "\<And>p (t::runtime). ctxs t = ctxs s \<Longrightarrow> rank p < rank (phase_of (ctxs s ! k)) \<Longrightarrow>
      work (set_phase k p t) < work s"
  proof -
    fix p and t :: runtime assume t: "ctxs t = ctxs s" and lt: "rank p < rank (phase_of (ctxs s ! k))"
    let ?xs = "map (\<lambda>c. rank (phase_of c)) (ctxs s)"
    have "work (set_phase k p t) = sum_list (?xs[k := rank p])"
      by (simp add: work_def set_phase_def t map_update)
    also have "\<dots> = sum_list ?xs + rank p - ?xs ! k"
      using k by (simp add: sum_list_update)
    also have "\<dots> < sum_list ?xs"
    proof -
      have "?xs ! k \<le> sum_list ?xs"
        using k by (intro member_le_sum_list) simp_all
      moreover have "rank p < ?xs ! k" using lt k by simp
      ultimately show ?thesis by linarith
    qed
    finally show "work (set_phase k p t) < work s" by (simp add: work_def)
  qed
  have "work (advance k s') < work s"
  proof (cases "phase_of (ctxs s ! k)")
    case Ready
    then show ?thesis
      by (cases "body_of (ctxs s ! k)")
         (simp_all add: advance_def c upd write_slot_def log_ran_def)
  next
    case Unwinding
    then show ?thesis
      by (cases "body_of (ctxs s ! k)")
         (simp_all add: advance_def c upd write_slot_def log_ran_def)
  next
    case Finished
    with ph show ?thesis by simp
  qed
  then show "((sch, ready, sched_step sch s), (sch, ready, s)) \<in> measure (\<lambda>(sch, ready, s). work s)"
    by (simp add: step)
qed

subsection \<open>The caller's operations\<close>

text \<open>Each call the caller makes into the library or the kernel ends with a scheduling
  point, where the other contexts may run before the caller goes on.\<close>

definition ret :: "'a \<Rightarrow> 'a action" where
  "ret x s = Inr (x, s)"

definition call :: "schedule \<Rightarrow> event \<Rightarrow> unit action" where
  "call sch e s = Inr ((), preempt sch (s\<lparr>out := out s @ [e]\<rparr>))"

definition new_slot :: "runtime \<Rightarrow> nat \<times> runtime" where
  "new_slot s = (n_slots s, s\<lparr>n_slots := Suc (n_slots s)\<rparr>)"

definition spawn :: "body \<Rightarrow> runtime \<Rightarrow> nat \<times> runtime" where
  "spawn b s = (length (ctxs s), s\<lparr>ctxs := ctxs s @ [\<lparr>body_of = b, phase_of = Ready\<rparr>]\<rparr>)"

text \<open>\<open>std::async\<close>: eager dispatch spawns a context for the callable, deferred dispatch
  stores the callable with the result.\<close>

definition std_async :: "schedule \<Rightarrow> launch \<Rightarrow> callable \<Rightarrow> nat action" where
  "std_async sch pol f s =
     (let (i, s1) = new_slot s
      in case pol of
           Async \<Rightarrow> Inr (i, preempt sch (snd (spawn (Fulfil i f) s1)))
         | Deferred \<Rightarrow> Inr (i, preempt sch (s1\<lparr>deferred := (deferred s1)(i := Some f)\<rparr>)))"

text \<open>\<open>std::packaged_task<int()> task(f)\<close> and \<open>std::promise<int> p\<close>: a callable with
  its own result, and a result alone.\<close>

definition packaged_task :: "schedule \<Rightarrow> callable \<Rightarrow> (nat \<times> callable) action" where
  "packaged_task sch f s = (let (i, s1) = new_slot s in Inr ((i, f), preempt sch s1))"

definition promise :: "schedule \<Rightarrow> nat action" where
  "promise sch s = (let (i, s1) = new_slot s in Inr (i, preempt sch s1))"

definition get_future :: "schedule \<Rightarrow> nat \<Rightarrow> nat action" where
  "get_future sch i s = Inr (i, preempt sch s)"

text \<open>\<open>std::thread t(body)\<close>, \<open>t.detach()\<close> and \<open>t.join()\<close>.\<close>

definition thread_start :: "schedule \<Rightarrow> body \<Rightarrow> nat action" where
  "thread_start sch b s = (let (k, s1) = spawn b s in Inr (k, preempt sch s1))"

definition thread_detach :: "schedule \<Rightarrow> nat \<Rightarrow> unit action" where
  "thread_detach sch k s = Inr ((), preempt sch (s\<lparr>detached := k # detached s\<rparr>))"

definition thread_join :: "schedule \<Rightarrow> nat \<Rightarrow> unit action" where
  "thread_join sch k s =
     (case await sch (\<lambda>t. k < length (ctxs t) \<and> phase_of (ctxs t ! k) = Finished) s of
        Inl e \<Rightarrow> Inl e
      | Inr s' \<Rightarrow> Inr ((), preempt sch s'))"

text \<open>\<open>wait()\<close>: a deferred callable that has not run yet runs now, on the caller; for
  any other result the caller blocks until the slot is written.\<close>

definition future_wait :: "schedule \<Rightarrow> nat \<Rightarrow> unit action" where
  "future_wait sch i s =
     (case deferred s i of
        Some f \<Rightarrow>
          (if slots s i = None
           then Inr ((), preempt sch (log_ran i Caller (write_slot i (f ()) s)))
           else Inr ((), preempt sch s))
      | None \<Rightarrow>
          (case await sch (\<lambda>t. slots t i \<noteq> None) s of
             Inl e \<Rightarrow> Inl e
           | Inr s' \<Rightarrow> Inr ((), preempt sch s')))"

definition future_get :: "schedule \<Rightarrow> nat \<Rightarrow> u32 action" where
  "future_get sch i s =
     (if i \<in> set (consumed s) then Inl ResultAlreadyConsumed
      else case future_wait sch i s of
             Inl e \<Rightarrow> Inl e
           | Inr (u, s') \<Rightarrow>
               (case slots s' i of
                  None \<Rightarrow> Inl BlockedForever
                | Some v \<Rightarrow> Inr (v, s'\<lparr>consumed := i # consumed s'\<rparr>)))"

definition configASSERT :: "bool \<Rightarrow> unit action" where
  "configASSERT b s = (if b then Inr ((), s) else Inl AssertFailed)"

subsection \<open>\<open>task3\<close>\<close>

text \<open>Lines 83 to 93: the three futures. \<open>dflt\<close> is the policy the library takes for
  \<open>std::async\<close> called without one.\<close>

definition task3_futures :: "launch \<Rightarrow> schedule \<Rightarrow> (nat \<times> nat \<times> nat) action" where
  "task3_futures dflt sch =
     then_do (call sch (Println ''task3:'')) (\<lambda>_.
     then_do (call sch Flush) (\<lambda>_.
     then_do (call sch (SleepFor 5000)) (\<lambda>_.
     then_do (call sch (Println ''task3: creating futures...'')) (\<lambda>_.
     then_do (call sch Flush) (\<lambda>_.
     then_do (std_async sch dflt (\<lambda>_. 2)) (\<lambda>result0.
     then_do (std_async sch Async (\<lambda>_. 3)) (\<lambda>result1.
     then_do (std_async sch Deferred (\<lambda>_. 5)) (\<lambda>result2.
     ret (result0, result1, result2)))))))))"

text \<open>Line 95: \<open>result0.get() + result1.get() + result2.get()\<close>, operands left to right.
  The language leaves the order of the three calls to the compiler; \<open>take_all\<close> takes
  results in a given order, to show that the values do not depend on it.\<close>

fun take_all :: "schedule \<Rightarrow> nat list \<Rightarrow> u32 list action" where
  "take_all sch [] = ret []"
| "take_all sch (i # js) =
     then_do (future_get sch i) (\<lambda>v. then_do (take_all sch js) (\<lambda>vs. ret (v # vs)))"

definition task3_sum :: "schedule \<Rightarrow> nat \<times> nat \<times> nat \<Rightarrow> u32 action" where
  "task3_sum sch rs =
     (case rs of (result0, result1, result2) \<Rightarrow>
        then_do (future_get sch result0) (\<lambda>a.
        then_do (future_get sch result1) (\<lambda>b.
        then_do (future_get sch result2) (\<lambda>c.
        ret (a + b + c)))))"

text \<open>Lines 101 to 111: the packaged task on thread \<open>t2\<close>, the eager \<open>async\<close>, and the
  promise set at the exit of a detached thread.\<close>

definition task3_producers :: "schedule \<Rightarrow> (nat \<times> nat \<times> nat \<times> nat) action" where
  "task3_producers sch =
     then_do (packaged_task sch (\<lambda>_. 7)) (\<lambda>task.
     then_do (get_future sch (fst task)) (\<lambda>f1.
     then_do (thread_start sch (Fulfil (fst task) (snd task))) (\<lambda>t2.
     then_do (std_async sch Async (\<lambda>_. 8)) (\<lambda>f2.
     then_do (promise sch) (\<lambda>p.
     then_do (get_future sch p) (\<lambda>f3.
     then_do (thread_start sch (SetAtExit p 9)) (\<lambda>t.
     then_do (thread_detach sch t) (\<lambda>_.
     ret (t2, f1, f2, f3)))))))))"

text \<open>Lines 113 to 120.\<close>

definition task3_results :: "schedule \<Rightarrow> nat \<times> nat \<times> nat \<Rightarrow> (u32 \<times> u32 \<times> u32) action" where
  "task3_results sch fs =
     (case fs of (f1, f2, f3) \<Rightarrow>
        then_do (call sch (Println ''Waiting...'')) (\<lambda>_.
        then_do (call sch Flush) (\<lambda>_.
        then_do (future_wait sch f1) (\<lambda>_.
        then_do (future_wait sch f2) (\<lambda>_.
        then_do (future_wait sch f3) (\<lambda>_.
        then_do (future_get sch f1) (\<lambda>r1.
        then_do (future_get sch f2) (\<lambda>r2.
        then_do (future_get sch f3) (\<lambda>r3.
        ret (r1, r2, r3))))))))))"

definition task3 :: "launch \<Rightarrow> schedule \<Rightarrow> unit action" where
  "task3 dflt sch =
     then_do (task3_futures dflt sch) (\<lambda>rs.
     then_do (task3_sum sch rs) (\<lambda>r.
     then_do (call sch (Printf (''r=%d'' @ [LF, CR]) [r])) (\<lambda>_.
     then_do (configASSERT (2 + 3 + 5 = r)) (\<lambda>_.
     then_do (task3_producers sch) (\<lambda>(t2, fs).
     then_do (task3_results sch fs) (\<lambda>(r1, r2, r3).
     then_do (call sch (Printf (''Done!'' @ [LF] @ ''Results are: %d %d %d'' @ [LF, CR]) [r1, r2, r3])) (\<lambda>_.
     then_do (call sch Flush) (\<lambda>_.
     then_do (configASSERT (7 + 8 + 9 = r1 + r2 + r3)) (\<lambda>_.
     then_do (thread_join sch t2) (\<lambda>_.
     call sch TaskSuspend))))))))))"

section \<open>Reading a trace of the board\<close>

datatype step = Init | Wait | Sync | Register | Start

fun step_of :: "event \<Rightarrow> step option" where
  "step_of (SerialBegin b) = Some Init"
| "step_of (PinMode p m) = Some Init"
| "step_of (DigitalWriteFast p v) = Some Init"
| "step_of (Millis t) = Some Wait"
| "step_of SyncRtc = Some Sync"
| "step_of (TaskCreate e n d p) = Some Register"
| "step_of StartScheduler = Some Start"
| "step_of _ = None"

fun steps_of :: "event list \<Rightarrow> step list" where
  "steps_of [] = []"
| "steps_of (e # es) = (case step_of e of None \<Rightarrow> steps_of es | Some p \<Rightarrow> p # steps_of es)"

definition setup_steps :: "platform \<Rightarrow> board \<Rightarrow> step list option" where
  "setup_steps hw s0 =
     (case setup_prologue hw s0 of
        None \<Rightarrow> None
      | Some s \<Rightarrow> Some (steps_of (trace (scheduler_enter s))))"

text \<open>The order of the spec's Bootstrap Sequence, and the order of the code.\<close>

definition spec_order :: "step list" where
  "spec_order = [Init, Wait, Sync, Register, Start]"

definition code_order :: "step list" where
  "code_order = [Init, Wait, Register, Sync, Start]"

definition follows :: "step list \<Rightarrow> platform \<Rightarrow> board \<Rightarrow> bool" where
  "follows order hw s0 =
     (case setup_steps hw s0 of None \<Rightarrow> False | Some ps \<Rightarrow> remdups_adj ps = order)"

definition sync_count :: "platform \<Rightarrow> board \<Rightarrow> nat option" where
  "sync_count hw s0 =
     (case setup_prologue hw s0 of
        None \<Rightarrow> None
      | Some s \<Rightarrow> Some (count_list (takeWhile (\<lambda>e. e \<noteq> StartScheduler) (trace (scheduler_enter s))) SyncRtc))"

text \<open>The calls among which the synchronizations are placed: the registrations of tasks,
  the reads and writes of the real-time clock, the synchronizations and the start of the
  kernel. \<open>landmarks\<close> keeps them, in the order \<open>setup\<close> makes them.\<close>

fun is_landmark :: "event \<Rightarrow> bool" where
  "is_landmark (TaskCreate e n d p) = True"
| "is_landmark SyncRtc = True"
| "is_landmark RtcGet = True"
| "is_landmark (RtcSet t) = True"
| "is_landmark StartScheduler = True"
| "is_landmark _ = False"

definition landmarks :: "platform \<Rightarrow> board \<Rightarrow> event list option" where
  "landmarks hw s0 =
     (case setup_prologue hw s0 of
        None \<Rightarrow> None
      | Some s \<Rightarrow> Some (filter is_landmark (trace (scheduler_enter s))))"

fun is_output :: "event \<Rightarrow> bool" where
  "is_output (Println txt) = True"
| "is_output (Print txt) = True"
| "is_output (Printf fmt args) = True"
| "is_output _ = False"

fun is_registration :: "event \<Rightarrow> bool" where
  "is_registration (TaskCreate e n d p) = True"
| "is_registration _ = False"

fun reached :: "event \<Rightarrow> bool" where
  "reached (Millis t) = (\<not> t < 2000)"
| "reached _ = False"

definition before_threshold :: "event list \<Rightarrow> event list" where
  "before_threshold tr = takeWhile (\<lambda>e. \<not> reached e) tr"

definition outputs :: "event list \<Rightarrow> event list" where
  "outputs tr = filter is_output tr"

fun led_writes :: "event list \<Rightarrow> level list" where
  "led_writes [] = []"
| "led_writes (DigitalWrite p v # es) = v # led_writes es"
| "led_writes (e # es) = led_writes es"

fun alternating :: "level list \<Rightarrow> bool" where
  "alternating (a # b # vs) = (a \<noteq> b \<and> alternating (b # vs))"
| "alternating _ = True"

definition polled :: "platform \<Rightarrow> nat \<Rightarrow> nat \<Rightarrow> event list" where
  "polled hw p n = map (\<lambda>j. Millis (millis_at hw (p + j))) [0..<n]"

text \<open>What one call of \<open>print_time\<close> at local time \<open>t\<close> adds to the trace, and what
  \<open>setup\<close> adds between the end of its wait and the start of the kernel.\<close>

definition stamp :: "platform \<Rightarrow> u32 \<Rightarrow> event list" where
  "stamp hw t =
     GetTimeOfDay #
       (if 0 < fst (strftime_c hw (replicate 32 NUL) 32 ''%c UTC'' t)
        then [Println (c_str (snd (strftime_c hw (replicate 32 NUL) 32 ''%c UTC'' t)))] else [])"

definition after_wait :: "platform \<Rightarrow> u32 \<Rightarrow> event list" where
  "after_wait hw r =
     [Println (banner hw), TaskCreate Task1 ''task1'' 128 2,
      TaskCreate Task2 ''task2'' 8192 (configMAX_PRIORITIES hw - 1),
      TaskCreate Task3 ''task3'' 8192 3, SyncRtc]
     @ stamp hw r @ [RtcGet, RtcSet (r + 3600), SyncRtc] @ stamp hw (r + 3600)
     @ [Println ''setup(): starting scheduler...'', Flush]"

definition before_wait :: "platform \<Rightarrow> event list" where
  "before_wait hw =
     [SerialBegin 115200, PinMode (LED_BUILTIN hw) OUTPUT, DigitalWriteFast (LED_BUILTIN hw) HIGH]"

definition blink :: "platform \<Rightarrow> event list" where
  "blink hw =
     [DigitalWrite (LED_BUILTIN hw) LOW, TaskDelay (pdMS_TO_TICKS hw 250),
      DigitalWrite (LED_BUILTIN hw) HIGH, TaskDelay (pdMS_TO_TICKS hw 250)]"

text \<open>A board for the examples: the millisecond counter read once a second, a formatter
  that fails on the epoch itself and prints a fixed stamp otherwise.\<close>

definition demo :: platform where
  "demo = \<lparr>millis_at = (\<lambda>k. 1000 * of_nat k),
     strftime_c = (\<lambda>buf max fmt t.
        if t = 0 \<or> max \<le> length ''Thu Jan  1 01:00:00 1970 UTC'' then (0, buf)
        else (length ''Thu Jan  1 01:00:00 1970 UTC'',
              ''Thu Jan  1 01:00:00 1970 UTC'' @ drop (length ''Thu Jan  1 01:00:00 1970 UTC'') buf)),
     LED_BUILTIN = 13, configMAX_PRIORITIES = 10, pdMS_TO_TICKS = (\<lambda>ms. ms),
     tskKERNEL_VERSION_NUMBER = ''V10.4.1'', gcc_VERSION = ''9.3.1'',
     NEWLIB_VERSION = ''3.3.0'', build_DATE = ''May 17 2020''\<rparr>"

section \<open>Consistent states of the runtime, and their shapes\<close>

fun target :: "body \<Rightarrow> nat" where
  "target (Fulfil i f) = i"
| "target (SetAtExit i v) = i"

fun final_value :: "body \<Rightarrow> u32" where
  "final_value (Fulfil i f) = f ()"
| "final_value (SetAtExit i v) = v"

text \<open>What the slot of a context's result holds, by the phase the context is in.\<close>

definition expect :: "exec_context \<Rightarrow> u32 option" where
  "expect c =
     (case body_of c of
        Fulfil i f \<Rightarrow> (if phase_of c = Ready then None else Some (f ()))
      | SetAtExit i v \<Rightarrow> (if phase_of c = Finished then Some v else None))"

definition tgt :: "runtime \<Rightarrow> nat \<Rightarrow> nat" where
  "tgt s k = target (body_of (ctxs s ! k))"

definition runs_of :: "nat \<Rightarrow> runtime \<Rightarrow> (nat \<times> ctx_ref) list" where
  "runs_of i s = filter (\<lambda>e. fst e = i) (ran s)"

text \<open>
  A state is consistent when: the slot of every context's result is allocated, is not a
  deferred one, and holds what the context's phase says; no two contexts write the same
  slot; a deferred callable has run exactly when its slot is written, once and on the
  caller, and its slot then holds its value; nothing is stored beyond the allocated slots;
  only allocated slots were taken; and no slot was written twice. The initial state is
  consistent, and the steps of the contexts and the caller's operations keep it so.
\<close>

definition consistent :: "runtime \<Rightarrow> bool" where
  "consistent s \<longleftrightarrow>
     (\<forall>k<length (ctxs s). tgt s k < n_slots s \<and> deferred s (tgt s k) = None
        \<and> slots s (tgt s k) = expect (ctxs s ! k))
     \<and> distinct (map (\<lambda>c. target (body_of c)) (ctxs s))
     \<and> (\<forall>i f. deferred s i = Some f \<longrightarrow>
           i < n_slots s \<and> (slots s i = None \<or> slots s i = Some (f ()))
           \<and> runs_of i s = (if slots s i = None then [] else [(i, Caller)]))
     \<and> (\<forall>i. n_slots s \<le> i \<longrightarrow> slots s i = None \<and> deferred s i = None \<and> runs_of i s = [])
     \<and> (\<forall>i\<in>set (consumed s). i < n_slots s)
     \<and> faults s = []"

text \<open>What the steps of the other contexts leave as it is.\<close>

definition evolves :: "runtime \<Rightarrow> runtime \<Rightarrow> bool" where
  "evolves s s' \<longleftrightarrow>
     map body_of (ctxs s') = map body_of (ctxs s)
     \<and> deferred s' = deferred s \<and> n_slots s' = n_slots s \<and> consumed s' = consumed s
     \<and> out s' = out s
     \<and> (\<forall>i. i \<notin> target ` body_of ` set (ctxs s) \<longrightarrow>
           slots s' i = slots s i \<and> runs_of i s' = runs_of i s)
     \<and> (\<forall>i v. slots s i = Some v \<longrightarrow> slots s' i = Some v)
     \<and> (consistent s \<longrightarrow> consistent s')"

text \<open>The part of a state that does not depend on the schedule: the bodies of the
  contexts, the stored callables, the next slot, the results taken, the calls made,
  the slots that wait for a producer, and the deferred callables that have run.\<close>

record shape =
  bodies :: "body list"
  lazy :: "nat \<Rightarrow> callable option"
  fresh :: nat
  taken :: "nat list"
  printed :: "event list"
  idle :: "nat list"
  forced :: "nat list"

definition models :: "runtime \<Rightarrow> shape \<Rightarrow> bool" where
  "models s a \<longleftrightarrow>
     consistent s
     \<and> map body_of (ctxs s) = bodies a \<and> deferred s = lazy a \<and> n_slots s = fresh a
     \<and> consumed s = taken a \<and> out s = printed a
     \<and> (\<forall>i\<in>set (idle a). i < fresh a \<and> slots s i = None \<and> lazy a i = None
           \<and> i \<notin> target ` set (bodies a))
     \<and> (\<forall>i. lazy a i \<noteq> None \<longrightarrow> (i \<in> set (forced a) \<longleftrightarrow> slots s i \<noteq> None))
     \<and> (\<forall>i\<in>set (forced a). i < fresh a)"

definition sim :: "'a action \<Rightarrow> shape \<Rightarrow> 'a \<Rightarrow> shape \<Rightarrow> bool" where
  "sim m a x a' \<longleftrightarrow> (\<forall>s. models s a \<longrightarrow> (\<exists>s'. m s = Inr (x, s') \<and> models s' a'))"

definition promised :: "shape \<Rightarrow> nat \<Rightarrow> u32 option" where
  "promised a i =
     (case lazy a i of
        Some f \<Rightarrow> Some (f ())
      | None \<Rightarrow> map_option final_value (find (\<lambda>b. target b = i) (bodies a)))"

definition force :: "nat \<Rightarrow> shape \<Rightarrow> shape" where
  "force i a = (if lazy a i \<noteq> None \<and> i \<notin> set (forced a) then a\<lparr>forced := i # forced a\<rparr> else a)"

definition took :: "nat \<Rightarrow> shape \<Rightarrow> shape" where
  "took i a = (force i a)\<lparr>taken := i # taken a\<rparr>"

definition dispatched :: "launch \<Rightarrow> callable \<Rightarrow> shape \<Rightarrow> shape" where
  "dispatched pol f a =
     (case pol of
        Async \<Rightarrow> a\<lparr>fresh := Suc (fresh a), bodies := bodies a @ [Fulfil (fresh a) f]\<rparr>
      | Deferred \<Rightarrow> a\<lparr>lazy := (lazy a)(fresh a := Some f), fresh := Suc (fresh a)\<rparr>)"

definition shape0 :: shape where
  "shape0 = \<lparr>bodies = [], lazy = (\<lambda>_. None), fresh = 0, taken = [], printed = [],
     idle = [], forced = []\<rparr>"

text \<open>The shape of the state after line 93 of \<open>task3\<close>.\<close>

definition futures_shape :: "launch \<Rightarrow> shape" where
  "futures_shape dflt =
     dispatched Deferred (\<lambda>_. 5) (dispatched Async (\<lambda>_. 3) (dispatched dflt (\<lambda>_. 2)
       (shape0\<lparr>printed := [Println ''task3:'', Flush, SleepFor 5000,
          Println ''task3: creating futures...'', Flush]\<rparr>)))"

text \<open>The shape after line 96, and the shape of any consistent state.\<close>

definition summed :: "launch \<Rightarrow> shape" where
  "summed dflt = (took 2 (took 1 (took 0 (futures_shape dflt))))
     \<lparr>printed := printed (futures_shape dflt) @ [Printf (''r=%d'' @ [LF, CR]) [10]]\<rparr>"

definition shape_of :: "runtime \<Rightarrow> shape" where
  "shape_of s = \<lparr>bodies = map body_of (ctxs s), lazy = deferred s, fresh = n_slots s,
     taken = consumed s, printed = out s, idle = [],
     forced = filter (\<lambda>i. deferred s i \<noteq> None \<and> slots s i \<noteq> None) [0..<n_slots s]\<rparr>"

text \<open>What lines 101 to 111 add to a shape: the thread of the packaged task, the eager
  \<open>async\<close>, and the detached thread that sets the promise at its exit.\<close>

definition produced :: "shape \<Rightarrow> shape" where
  "produced a =
     a\<lparr>bodies := bodies a @ [Fulfil (fresh a) (\<lambda>_. 7), Fulfil (Suc (fresh a)) (\<lambda>_. 8),
          SetAtExit (Suc (Suc (fresh a))) 9],
       fresh := Suc (Suc (Suc (fresh a)))\<rparr>"

text \<open>The two ways to a result that the spec compares: a packaged callable on a thread
  of its own, and eager dispatch of the same callable.\<close>

definition via_packaged :: "schedule \<Rightarrow> callable \<Rightarrow> u32 action" where
  "via_packaged sch f =
     then_do (packaged_task sch f) (\<lambda>task.
     then_do (get_future sch (fst task)) (\<lambda>fut.
     then_do (thread_start sch (Fulfil (fst task) (snd task))) (\<lambda>t.
     then_do (future_get sch fut) (\<lambda>v.
     then_do (thread_join sch t) (\<lambda>_.
     ret v)))))"

definition via_async :: "schedule \<Rightarrow> callable \<Rightarrow> u32 action" where
  "via_async sch f = then_do (std_async sch Async f) (\<lambda>fut. future_get sch fut)"

text \<open>For the examples: a schedule that lets one other context step at every scheduling
  point, in turn, and the state in which a promise waits for the exit of its thread.\<close>

definition round_robin :: schedule where
  "round_robin = \<lparr>burst = (\<lambda>n. 1), pick = (\<lambda>n. n)\<rparr>"

definition promise_pending :: runtime where
  "promise_pending = boot\<lparr>n_slots := 1, ctxs := [\<lparr>body_of = SetAtExit 0 9, phase_of = Ready\<rparr>]\<rparr>"

section \<open>The bootstrap, \<open>print_time\<close> and the LED task\<close>

subsection \<open>Traces of the single calls\<close>

lemma trace_emit [simp]: "trace (emit e s) = trace s @ [e]"
  by (simp add: emit_def)

lemma polls_emit [simp]: "polls (emit e s) = polls s"
  by (simp add: emit_def)

lemma rtc_emit [simp]: "rtc (emit e s) = rtc s"
  by (simp add: emit_def)

lemma sys_time_emit [simp]: "sys_time (emit e s) = sys_time s"
  by (simp add: emit_def)

lemma print_time_trace: "trace (snd (print_time hw s)) = trace s @ stamp hw (sys_time s)"
  by (simp add: print_time_def gettimeofday_def stamp_def Serial_println_def Let_def
      split: prod.splits)

lemma print_time_clocks:
  "rtc (snd (print_time hw s)) = rtc s" "sys_time (snd (print_time hw s)) = sys_time s"
  by (simp_all add: print_time_def gettimeofday_def Serial_println_def Let_def
      split: prod.splits)

lemma print_time_fst:
  "fst (print_time hw s) = (0 < fst (strftime_c hw (replicate 32 NUL) 32 ''%c UTC'' (sys_time s)))"
  by (simp add: print_time_def gettimeofday_def Let_def split: prod.splits)

subsection \<open>The wait\<close>

lemma polled_Suc: "polled hw p (Suc n) = Millis (millis_at hw p) # polled hw (Suc p) n"
  by (simp add: polled_def map_upt_Suc del: upt_Suc)

lemma polled_snoc: "polled hw p (Suc n) = polled hw p n @ [Millis (millis_at hw (p + n))]"
  by (simp add: polled_def)

lemma wait_boot_Some:
  "\<not> millis_at hw (polls s + n) < 2000 \<Longrightarrow> \<forall>j<n. millis_at hw (polls s + j) < 2000 \<Longrightarrow>
   wait_boot hw s = Some (s\<lparr>polls := polls s + Suc n,
      trace := trace s @ polled hw (polls s) (Suc n)\<rparr>)"
proof (induction n arbitrary: s)
  case 0
  then show ?case
    by (subst wait_boot.simps) (simp add: millis_def emit_def polled_def)
next
  case (Suc n)
  let ?s1 = "snd (millis hw s)"
  have p1: "polls ?s1 = Suc (polls s)" by (simp add: millis_def)
  have a: "\<not> millis_at hw (polls ?s1 + n) < 2000" using Suc.prems(1) p1 by simp
  have b: "\<forall>j<n. millis_at hw (polls ?s1 + j) < 2000"
  proof (intro allI impI)
    fix j assume "j < n"
    then have "Suc j < Suc n" by simp
    with Suc.prems(2) have "millis_at hw (polls s + Suc j) < 2000" by blast
    then show "millis_at hw (polls ?s1 + j) < 2000" using p1 by simp
  qed
  have c: "millis_at hw (polls s) < 2000" using Suc.prems(2) [rule_format, of 0] by simp
  have "wait_boot hw s = wait_boot hw ?s1"
    by (subst wait_boot.simps) (simp add: c millis_def)
  also have "\<dots> = Some (?s1\<lparr>polls := polls ?s1 + Suc n,
      trace := trace ?s1 @ polled hw (polls ?s1) (Suc n)\<rparr>)"
    by (rule Suc.IH [OF a b])
  also have "\<dots> = Some (s\<lparr>polls := polls s + Suc (Suc n),
      trace := trace s @ polled hw (polls s) (Suc (Suc n))\<rparr>)"
    by (simp add: millis_def emit_def polled_Suc [of hw "polls s"])
  finally show ?case .
qed

lemma wait_boot_reading:
  assumes "wait_boot hw s = Some s'"
  shows "\<exists>n. \<not> millis_at hw (polls s + n) < 2000 \<and> (\<forall>j<n. millis_at hw (polls s + j) < 2000)"
proof (rule wait_boot.raw_induct [where P = "\<lambda>hw s s'. \<exists>n. \<not> millis_at hw (polls s + n) < 2000
     \<and> (\<forall>j<n. millis_at hw (polls s + j) < 2000)", OF _ assms])
  fix wb :: "platform \<Rightarrow> board \<Rightarrow> board option" and hw s s'
  assume IH: "\<And>hw s s'. wb hw s = Some s' \<Longrightarrow> \<exists>n. \<not> millis_at hw (polls s + n) < 2000
     \<and> (\<forall>j<n. millis_at hw (polls s + j) < 2000)"
    and step: "(if fst (millis hw s) < 2000 then wb hw (snd (millis hw s))
        else Some (snd (millis hw s))) = Some s'"
  show "\<exists>n. \<not> millis_at hw (polls s + n) < 2000 \<and> (\<forall>j<n. millis_at hw (polls s + j) < 2000)"
  proof (cases "millis_at hw (polls s) < 2000")
    case False
    then have "\<not> millis_at hw (polls s + 0) < 2000 \<and> (\<forall>j<0. millis_at hw (polls s + j) < 2000)"
      by simp
    then show ?thesis by blast
  next
    case True
    with step have "wb hw (snd (millis hw s)) = Some s'"
      by (simp add: millis_def)
    from IH [OF this] obtain n where
      n: "\<not> millis_at hw (Suc (polls s) + n) < 2000"
         "\<forall>j<n. millis_at hw (Suc (polls s) + j) < 2000"
      by (auto simp: millis_def)
    have "\<forall>j<Suc n. millis_at hw (polls s + j) < 2000"
    proof (intro allI impI)
      fix j assume j: "j < Suc n"
      show "millis_at hw (polls s + j) < 2000"
      proof (cases j)
        case 0 with True show ?thesis by simp
      next
        case (Suc i)
        with j n(2) show ?thesis by simp
      qed
    qed
    moreover have "\<not> millis_at hw (polls s + Suc n) < 2000" using n(1) by simp
    ultimately show ?thesis by blast
  qed
qed

lemma first_reading:
  assumes "\<exists>k. 2000 \<le> millis_at hw k"
  shows "\<exists>n. \<not> millis_at hw n < 2000 \<and> (\<forall>j<n. millis_at hw j < 2000)"
proof -
  let ?P = "\<lambda>n. \<not> millis_at hw n < 2000"
  from assms obtain k where "?P k" by (auto simp: not_less)
  then have "?P (LEAST n. ?P n)" by (rule LeastI)
  moreover have "\<forall>j<(LEAST n. ?P n). millis_at hw j < 2000"
    using not_less_Least by blast
  ultimately show ?thesis by blast
qed

subsection \<open>The trace of the prologue\<close>

lemma setup_prologue_trace:
  assumes n: "\<not> millis_at hw n < 2000" "\<forall>j<n. millis_at hw j < 2000"
  shows "\<exists>s. setup_prologue hw (power_on r) = Some s
    \<and> trace s = before_wait hw @ polled hw 0 (Suc n) @ after_wait hw r"
proof -
  let ?s3 = "digitalWriteFast (LED_BUILTIN hw) HIGH
     (pinMode (LED_BUILTIN hw) OUTPUT (Serial_begin 115200 (power_on r)))"
  have p3: "polls ?s3 = 0"
    by (simp add: digitalWriteFast_def pinMode_def Serial_begin_def power_on_def)
  have t3: "trace ?s3 = before_wait hw"
    by (simp add: digitalWriteFast_def pinMode_def Serial_begin_def power_on_def before_wait_def)
  have r3: "rtc ?s3 = r"
    by (simp add: digitalWriteFast_def pinMode_def Serial_begin_def power_on_def)
  define s4 where "s4 = ?s3\<lparr>polls := polls ?s3 + Suc n,
      trace := trace ?s3 @ polled hw (polls ?s3) (Suc n)\<rparr>"
  have w: "wait_boot hw ?s3 = Some s4"
    unfolding s4_def using n by (intro wait_boot_Some) (simp_all add: p3)
  have t4: "trace s4 = before_wait hw @ polled hw 0 (Suc n)"
    by (simp add: s4_def t3 p3)
  have r4: "rtc s4 = r" by (simp add: s4_def r3)
  show ?thesis
    by (simp add: setup_prologue_def Let_def w t4 r4 after_wait_def Serial_println_def
        Serial_flush_def xTaskCreate_def sync_rtc_def rtc_get_def rtc_set_def
        print_time_trace print_time_clocks split: prod.splits)
qed

lemma setup_prologue_Some_iff:
  "(\<exists>s. setup_prologue hw (power_on r) = Some s) \<longleftrightarrow> (\<exists>k. 2000 \<le> millis_at hw k)"
proof
  assume "\<exists>s. setup_prologue hw (power_on r) = Some s"
  then obtain s4 where "wait_boot hw (digitalWriteFast (LED_BUILTIN hw) HIGH
     (pinMode (LED_BUILTIN hw) OUTPUT (Serial_begin 115200 (power_on r)))) = Some s4"
    by (auto simp: setup_prologue_def Let_def split: option.splits)
  from wait_boot_reading [OF this] show "\<exists>k. 2000 \<le> millis_at hw k"
    by (auto simp: not_less)
next
  assume "\<exists>k. 2000 \<le> millis_at hw k"
  from first_reading [OF this] obtain n where
    "\<not> millis_at hw n < 2000" "\<forall>j<n. millis_at hw j < 2000" by blast
  from setup_prologue_trace [OF this] show "\<exists>s. setup_prologue hw (power_on r) = Some s"
    by blast
qed

lemma setup_prologue_shape:
  assumes "setup_prologue hw (power_on r) = Some s"
  shows "\<exists>n. \<not> millis_at hw n < 2000 \<and> (\<forall>j<n. millis_at hw j < 2000)
    \<and> trace s = before_wait hw @ polled hw 0 (Suc n) @ after_wait hw r"
proof -
  from assms setup_prologue_Some_iff have "\<exists>k. 2000 \<le> millis_at hw k" by blast
  from first_reading [OF this] obtain n where
    n: "\<not> millis_at hw n < 2000" "\<forall>j<n. millis_at hw j < 2000" by blast
  from setup_prologue_trace [OF n, of r] assms show ?thesis using n by auto
qed

subsection \<open>Steps, counts and the threshold\<close>

lemma steps_of_append: "steps_of (xs @ ys) = steps_of xs @ steps_of ys"
  by (induction xs) (auto split: option.splits)

lemma steps_of_polled: "steps_of (polled hw p n) = replicate n Wait"
proof (induction n)
  case 0 show ?case by (simp add: polled_def)
next
  case (Suc n)
  have "steps_of (polled hw p (Suc n)) = replicate n Wait @ [Wait]"
    by (simp only: polled_snoc steps_of_append Suc.IH) simp
  then show ?case by (simp add: replicate_append_same)
qed

lemma steps_of_stamp: "steps_of (stamp hw t) = []"
  by (simp add: stamp_def)

lemma steps_of_prologue:
  "steps_of ((before_wait hw @ polled hw 0 (Suc n) @ after_wait hw r) @ [StartScheduler]) =
     [Init, Init, Init] @ replicate (Suc n) Wait @ [Register, Register, Register, Sync, Sync, Start]"
  by (simp add: steps_of_append steps_of_polled steps_of_stamp before_wait_def after_wait_def
      del: replicate_Suc)

lemma remdups_adj_run:
  "x \<noteq> y \<Longrightarrow> remdups_adj (replicate (Suc n) x @ y # ys) = x # remdups_adj (y # ys)"
  by (induction n) simp_all

lemma setup_steps_code_order:
  assumes "\<exists>k. 2000 \<le> millis_at hw k"
  shows "follows code_order hw (power_on r)"
proof -
  from first_reading [OF assms] obtain n where
    n: "\<not> millis_at hw n < 2000" "\<forall>j<n. millis_at hw j < 2000" by blast
  from setup_prologue_trace [OF n, of r] obtain s where
    s: "setup_prologue hw (power_on r) = Some s"
       "trace s = before_wait hw @ polled hw 0 (Suc n) @ after_wait hw r" by blast
  have "steps_of (trace (scheduler_enter s)) =
     [Init, Init, Init] @ replicate (Suc n) Wait @ [Register, Register, Register, Sync, Sync, Start]"
    using steps_of_prologue [of hw n r] by (simp add: scheduler_enter_def emit_def s(2))
  moreover have "remdups_adj ([Init, Init, Init] @ replicate (Suc n) Wait
       @ [Register, Register, Register, Sync, Sync, Start]) = code_order"
    using remdups_adj_run [of Wait Register n "[Register, Register, Sync, Sync, Start]"]
    by (simp add: code_order_def)
  ultimately show ?thesis
    by (simp add: follows_def setup_steps_def s(1))
qed

lemma demo_clock: "\<exists>k. 2000 \<le> millis_at demo k"
proof
  show "2000 \<le> millis_at demo 2" by (simp add: demo_def)
qed

lemma not_start_polled: "StartScheduler \<notin> set (polled hw p n)"
  by (auto simp: polled_def)

lemma count_sync_polled: "count_list (polled hw p n) SyncRtc = 0"
  by (simp add: polled_def count_list_0_iff image_iff)

lemma takeWhile_upto: "x \<notin> set xs \<Longrightarrow> takeWhile (\<lambda>e. e \<noteq> x) (xs @ [x]) = xs"
  by (induction xs) auto

lemma sync_count_prologue:
  assumes "\<exists>k. 2000 \<le> millis_at hw k"
  shows "sync_count hw (power_on r) = Some 2"
proof -
  from first_reading [OF assms] obtain n where
    n: "\<not> millis_at hw n < 2000" "\<forall>j<n. millis_at hw j < 2000" by blast
  from setup_prologue_trace [OF n, of r] obtain s where
    s: "setup_prologue hw (power_on r) = Some s"
       "trace s = before_wait hw @ polled hw 0 (Suc n) @ after_wait hw r" by blast
  have no: "StartScheduler \<notin> set (trace s)"
    using not_start_polled [of hw 0 "Suc n"]
    by (simp add: s(2) before_wait_def after_wait_def stamp_def)
  have "takeWhile (\<lambda>e. e \<noteq> StartScheduler) (trace (scheduler_enter s)) = trace s"
    using takeWhile_upto [OF no] by (simp add: scheduler_enter_def emit_def)
  moreover have "count_list (trace s) SyncRtc = 2"
    by (simp add: s(2) count_sync_polled before_wait_def after_wait_def stamp_def)
  ultimately show ?thesis by (simp add: sync_count_def s(1))
qed

lemma landmarks_polled: "filter is_landmark (polled hw p n) = []"
  by (simp add: polled_def filter_empty_conv)

lemma landmarks_prologue:
  assumes "\<exists>k. 2000 \<le> millis_at hw k"
  shows "landmarks hw (power_on r) =
     Some [TaskCreate Task1 ''task1'' 128 2,
           TaskCreate Task2 ''task2'' 8192 (configMAX_PRIORITIES hw - 1),
           TaskCreate Task3 ''task3'' 8192 3,
           SyncRtc, RtcGet, RtcSet (r + 3600), SyncRtc, StartScheduler]"
proof -
  from first_reading [OF assms] obtain n where
    n: "\<not> millis_at hw n < 2000" "\<forall>j<n. millis_at hw j < 2000" by blast
  from setup_prologue_trace [OF n, of r] obtain s where
    s: "setup_prologue hw (power_on r) = Some s"
       "trace s = before_wait hw @ polled hw 0 (Suc n) @ after_wait hw r" by blast
  have "filter is_landmark (trace (scheduler_enter s)) =
     [TaskCreate Task1 ''task1'' 128 2,
      TaskCreate Task2 ''task2'' 8192 (configMAX_PRIORITIES hw - 1),
      TaskCreate Task3 ''task3'' 8192 3,
      SyncRtc, RtcGet, RtcSet (r + 3600), SyncRtc, StartScheduler]"
    using landmarks_polled [of hw 0 "Suc n"]
    by (simp add: scheduler_enter_def emit_def s(2) before_wait_def after_wait_def stamp_def)
  then show ?thesis by (simp add: landmarks_def s(1))
qed

lemma reached_polled:
  "\<forall>j<n. millis_at hw (p + j) < 2000 \<Longrightarrow> \<forall>e\<in>set (polled hw p n). \<not> reached e"
  by (auto simp: polled_def)

lemma before_threshold_prologue:
  assumes "\<not> millis_at hw n < 2000" "\<forall>j<n. millis_at hw j < 2000"
  shows "before_threshold (before_wait hw @ polled hw 0 (Suc n) @ rest) =
           before_wait hw @ polled hw 0 n"
proof -
  have a: "\<forall>e\<in>set (before_wait hw @ polled hw 0 n). \<not> reached e"
    using reached_polled [of n hw 0] assms(2) by (auto simp: before_wait_def)
  have b: "reached (Millis (millis_at hw n))" using assms(1) by simp
  have "before_wait hw @ polled hw 0 (Suc n) @ rest =
      (before_wait hw @ polled hw 0 n) @ Millis (millis_at hw n) # rest"
    by (simp add: polled_snoc)
  then show ?thesis
    using a b unfolding before_threshold_def by (simp only: takeWhile_append2 takeWhile.simps)
       simp
qed

lemma quiet_polled:
  "filter is_output (polled hw p n) = []" "filter is_registration (polled hw p n) = []"
  by (simp_all add: polled_def filter_empty_conv)

subsection \<open>The two loops that never end\<close>

lemma scheduler_loop_None: "scheduler_loop s = None"
proof (cases "scheduler_loop s")
  case None then show ?thesis .
next
  case (Some y)
  have False
    by (rule scheduler_loop.raw_induct [where P = "\<lambda>_ _. False", OF _ Some])
  then show ?thesis ..
qed

lemma task1_body_trace: "trace (task1_body hw s) = trace s @ blink hw"
  by (simp add: task1_body_def Let_def digitalWrite_def vTaskDelay_def blink_def)

lemma task1_iter_trace:
  "trace ((task1_body hw ^^ n) s) = trace s @ concat (replicate n (blink hw))"
proof (induction n arbitrary: s)
  case 0 show ?case by simp
next
  case (Suc n)
  have "trace ((task1_body hw ^^ Suc n) s) = trace ((task1_body hw ^^ n) (task1_body hw s))"
    by (simp add: funpow_swap1)
  then show ?case by (simp add: Suc.IH task1_body_trace)
qed

lemma task1_run: "task1 n hw s = Running ((task1_body hw ^^ n) s)"
proof (induction n arbitrary: s)
  case 0 show ?case by simp
next
  case (Suc n)
  have "task1 (Suc n) hw s = task1 n hw (task1_body hw s)" by simp
  also have "\<dots> = Running ((task1_body hw ^^ n) (task1_body hw s))" by (rule Suc.IH)
  also have "(task1_body hw ^^ n) (task1_body hw s) = (task1_body hw ^^ Suc n) s"
    by (simp add: funpow_swap1)
  finally show ?case .
qed

lemma led_writes_blink: "led_writes (blink hw @ es) = LOW # HIGH # led_writes es"
  by (simp add: blink_def)

lemma led_writes_blinks:
  "led_writes (concat (replicate n (blink hw))) = concat (replicate n [LOW, HIGH])"
  by (induction n) (simp_all add: led_writes_blink)

lemma alternating_blinks: "alternating (concat (replicate n [LOW, HIGH]))"
proof (induction n)
  case 0 show ?case by simp
next
  case (Suc n)
  then show ?case by (cases n) simp_all
qed

section \<open>The runtime under every schedule\<close>

subsection \<open>Fields after the small updates\<close>

lemma write_slot_fields [simp]:
  "ctxs (write_slot i v s) = ctxs s" "deferred (write_slot i v s) = deferred s"
  "n_slots (write_slot i v s) = n_slots s" "consumed (write_slot i v s) = consumed s"
  "out (write_slot i v s) = out s" "ran (write_slot i v s) = ran s"
  by (simp_all add: write_slot_def)

lemma write_slot_empty:
  "slots s i = None \<Longrightarrow> slots (write_slot i v s) = (slots s)(i := Some v)"
  "slots s i = None \<Longrightarrow> faults (write_slot i v s) = faults s"
  by (simp_all add: write_slot_def)

lemma log_ran_fields [simp]:
  "ctxs (log_ran i c s) = ctxs s" "deferred (log_ran i c s) = deferred s"
  "n_slots (log_ran i c s) = n_slots s" "consumed (log_ran i c s) = consumed s"
  "out (log_ran i c s) = out s" "slots (log_ran i c s) = slots s"
  "faults (log_ran i c s) = faults s" "ran (log_ran i c s) = ran s @ [(i, c)]"
  by (simp_all add: log_ran_def)

lemma set_phase_fields [simp]:
  "ctxs (set_phase k p s) = (ctxs s)[k := (ctxs s ! k)\<lparr>phase_of := p\<rparr>]"
  "deferred (set_phase k p s) = deferred s"
  "n_slots (set_phase k p s) = n_slots s" "consumed (set_phase k p s) = consumed s"
  "out (set_phase k p s) = out s" "slots (set_phase k p s) = slots s"
  "faults (set_phase k p s) = faults s" "ran (set_phase k p s) = ran s"
  by (simp_all add: set_phase_def)

lemma runs_of_set_phase [simp]: "runs_of i (set_phase k p s) = runs_of i s"
  by (simp add: runs_of_def)

lemma runs_of_write_slot [simp]: "runs_of i (write_slot j v s) = runs_of i s"
  by (simp add: runs_of_def)

lemma runs_of_log_ran:
  "runs_of i (log_ran j c s) = runs_of i s @ (if j = i then [(j, c)] else [])"
  by (simp add: runs_of_def)

lemma bodies_set_phase [simp]:
  "map body_of (ctxs (set_phase k p s)) = map body_of (ctxs s)"
proof (cases "k < length (ctxs s)")
  case True
  then have "(map body_of (ctxs s))[k := body_of (ctxs s ! k)] = map body_of (ctxs s)"
    by (metis length_map list_update_id nth_map)
  then show ?thesis by (simp add: map_update)
next
  case False
  then show ?thesis by (simp add: list_update_beyond)
qed

lemma bodies_update [simp]:
  "map body_of ((ctxs (s::runtime))[k := (ctxs s ! k)\<lparr>phase_of := p\<rparr>]) = map body_of (ctxs s)"
  using bodies_set_phase [of k p s] by simp

lemma length_set_phase [simp]: "length (ctxs (set_phase k p s)) = length (ctxs s)"
  by simp

lemma body_set_phase [simp]: "body_of (ctxs (set_phase k p s) ! j) = body_of (ctxs s ! j)"
proof (cases "j = k \<and> k < length (ctxs s)")
  case True
  then show ?thesis by simp
next
  case False
  then show ?thesis by (cases "j = k") (simp_all add: list_update_beyond)
qed

lemma tgt_set_phase [simp]: "tgt (set_phase k p s) j = tgt s j"
  unfolding tgt_def by (simp only: body_set_phase)

lemma phase_set_phase:
  "k < length (ctxs s) \<Longrightarrow>
   phase_of (ctxs (set_phase k p s) ! j) = (if j = k then p else phase_of (ctxs s ! j))"
  by simp


subsection \<open>One step of a context keeps the state consistent\<close>

lemma distinct_tgt:
  assumes "consistent s" "j < length (ctxs s)" "k < length (ctxs s)" "j \<noteq> k"
  shows "tgt s j \<noteq> tgt s k"
proof -
  let ?ts = "map (\<lambda>c. target (body_of c)) (ctxs s)"
  have d: "distinct ?ts" using assms(1) by (simp add: consistent_def)
  have "j < length ?ts" "k < length ?ts" using assms(2,3) by simp_all
  from nth_eq_iff_index_eq [OF d this] assms(4) have "?ts ! j \<noteq> ?ts ! k" by blast
  then show ?thesis using assms(2,3) by (simp add: tgt_def)
qed

lemma consistent_moved:
  assumes c: "consistent s" and k: "k < length (ctxs s)"
    and cs: "ctxs s' = (ctxs s)[k := (ctxs s ! k)\<lparr>phase_of := p\<rparr>]"
    and sl: "slots s' = (slots s)(tgt s k := expect ((ctxs s ! k)\<lparr>phase_of := p\<rparr>))"
    and df: "deferred s' = deferred s" and ns: "n_slots s' = n_slots s"
    and fl: "faults s' = faults s" and cn: "consumed s' = consumed s"
    and rn: "\<And>i. i \<noteq> tgt s k \<Longrightarrow> runs_of i s' = runs_of i s"
  shows "consistent s'"
proof -
  have len: "length (ctxs s') = length (ctxs s)" by (simp add: cs)
  have tg: "\<And>j. tgt s' j = tgt s j"
  proof -
    fix j
    have "ctxs s' = ctxs (set_phase k p s)" by (simp add: cs)
    then have "tgt s' j = tgt (set_phase k p s) j" by (simp add: tgt_def)
    then show "tgt s' j = tgt s j" by simp
  qed
  have c1: "\<forall>j<length (ctxs s'). tgt s' j < n_slots s' \<and> deferred s' (tgt s' j) = None
      \<and> slots s' (tgt s' j) = expect (ctxs s' ! j)"
  proof (intro allI impI)
    fix j assume "j < length (ctxs s')"
    then have j: "j < length (ctxs s)" by (simp add: len)
    from c j have old: "tgt s j < n_slots s" "deferred s (tgt s j) = None"
      "slots s (tgt s j) = expect (ctxs s ! j)"
      by (simp_all add: consistent_def)
    have "slots s' (tgt s j) = expect (ctxs s' ! j)"
    proof (cases "j = k")
      case True
      then show ?thesis using k by (simp add: sl cs)
    next
      case False
      from distinct_tgt [OF c j k False] have "tgt s j \<noteq> tgt s k" .
      then show ?thesis using False old(3) by (simp add: sl cs)
    qed
    with old show "tgt s' j < n_slots s' \<and> deferred s' (tgt s' j) = None
      \<and> slots s' (tgt s' j) = expect (ctxs s' ! j)"
      by (simp add: tg df ns)
  qed
  have "map (\<lambda>c. target (body_of c)) (ctxs s') = map (\<lambda>c. target (body_of c)) (ctxs s)"
  proof (rule nth_equalityI)
    show "length (map (\<lambda>c. target (body_of c)) (ctxs s')) =
        length (map (\<lambda>c. target (body_of c)) (ctxs s))" by (simp add: len)
  next
    fix j assume "j < length (map (\<lambda>c. target (body_of c)) (ctxs s'))"
    then have "j < length (ctxs s)" by (simp add: len)
    then show "map (\<lambda>c. target (body_of c)) (ctxs s') ! j =
        map (\<lambda>c. target (body_of c)) (ctxs s) ! j"
      using tg [of j] by (simp add: len tgt_def)
  qed
  then have c2: "distinct (map (\<lambda>c. target (body_of c)) (ctxs s'))"
    using c by (simp add: consistent_def)
  have tk: "tgt s k < n_slots s" "deferred s (tgt s k) = None"
    using c k by (simp_all add: consistent_def)
  have c3: "\<forall>i f. deferred s' i = Some f \<longrightarrow>
       i < n_slots s' \<and> (slots s' i = None \<or> slots s' i = Some (f ()))
       \<and> runs_of i s' = (if slots s' i = None then [] else [(i, Caller)])"
  proof (intro allI impI)
    fix i f assume "deferred s' i = Some f"
    then have d: "deferred s i = Some f" by (simp add: df)
    with tk(2) have ne: "i \<noteq> tgt s k" by auto
    from c d have "i < n_slots s \<and> (slots s i = None \<or> slots s i = Some (f ()))
       \<and> runs_of i s = (if slots s i = None then [] else [(i, Caller)])"
      unfolding consistent_def by blast
    then show "i < n_slots s' \<and> (slots s' i = None \<or> slots s' i = Some (f ()))
       \<and> runs_of i s' = (if slots s' i = None then [] else [(i, Caller)])"
      using ne by (simp add: sl ns rn)
  qed
  have c4: "\<forall>i. n_slots s' \<le> i \<longrightarrow> slots s' i = None \<and> deferred s' i = None
      \<and> runs_of i s' = []"
  proof (intro allI impI)
    fix i assume "n_slots s' \<le> i"
    then have i: "n_slots s \<le> i" by (simp add: ns)
    with tk(1) have "i \<noteq> tgt s k" by simp
    moreover from c i have "slots s i = None \<and> deferred s i = None \<and> runs_of i s = []"
      by (simp add: consistent_def)
    ultimately show "slots s' i = None \<and> deferred s' i = None \<and> runs_of i s' = []"
      by (simp add: sl df rn)
  qed
  have c5: "faults s' = []" using c by (simp add: fl consistent_def)
  have c6: "\<forall>i\<in>set (consumed s'). i < n_slots s'"
    using c by (simp add: cn ns consistent_def)
  from c1 c2 c3 c4 c5 c6 show ?thesis unfolding consistent_def by blast
qed

lemma consistent_advance:
  assumes c: "consistent s" and k: "k < length (ctxs s)"
  shows "consistent (advance k s)"
proof -
  from c k have sk: "slots s (tgt s k) = expect (ctxs s ! k)"
    by (simp add: consistent_def)
  show ?thesis
  proof (cases "phase_of (ctxs s ! k)")
    case Ready
    show ?thesis
    proof (cases "body_of (ctxs s ! k)")
      case (Fulfil i f)
      then have i: "tgt s k = i" by (simp add: tgt_def)
      from sk Ready Fulfil have e: "slots s i = None" by (simp add: expect_def i)
      have adv: "advance k s = set_phase k Unwinding (log_ran i (Spawned k) (write_slot i (f ()) s))"
        by (simp add: advance_def Ready Fulfil)
      show ?thesis unfolding adv
      proof (rule consistent_moved [OF c k, where p = Unwinding])
        show "slots (set_phase k Unwinding (log_ran i (Spawned k) (write_slot i (f ()) s))) =
            (slots s)(tgt s k := expect ((ctxs s ! k)\<lparr>phase_of := Unwinding\<rparr>))"
          by (simp add: write_slot_empty e i expect_def Fulfil)
      qed (simp_all add: write_slot_empty e i runs_of_log_ran)
    next
      case (SetAtExit i v)
      then have i: "tgt s k = i" by (simp add: tgt_def)
      from sk Ready SetAtExit have e: "slots s i = None" by (simp add: expect_def i)
      have adv: "advance k s = set_phase k Unwinding s"
        by (simp add: advance_def Ready SetAtExit)
      show ?thesis unfolding adv
      proof (rule consistent_moved [OF c k, where p = Unwinding])
        have "(slots s)(i := None) = slots s" using e by (simp add: fun_upd_idem)
        then show "slots (set_phase k Unwinding s) =
            (slots s)(tgt s k := expect ((ctxs s ! k)\<lparr>phase_of := Unwinding\<rparr>))"
          by (simp add: i expect_def SetAtExit)
      qed simp_all
    qed
  next
    case Unwinding
    show ?thesis
    proof (cases "body_of (ctxs s ! k)")
      case (Fulfil i f)
      then have i: "tgt s k = i" by (simp add: tgt_def)
      from sk Unwinding Fulfil have e: "slots s i = Some (f ())" by (simp add: expect_def i)
      have adv: "advance k s = set_phase k Finished s"
        by (simp add: advance_def Unwinding Fulfil)
      show ?thesis unfolding adv
      proof (rule consistent_moved [OF c k, where p = Finished])
        have "(slots s)(i := Some (f ())) = slots s" using e by (simp add: fun_upd_idem)
        then show "slots (set_phase k Finished s) =
            (slots s)(tgt s k := expect ((ctxs s ! k)\<lparr>phase_of := Finished\<rparr>))"
          by (simp add: i expect_def Fulfil)
      qed simp_all
    next
      case (SetAtExit i v)
      then have i: "tgt s k = i" by (simp add: tgt_def)
      from sk Unwinding SetAtExit have e: "slots s i = None" by (simp add: expect_def i)
      have adv: "advance k s = set_phase k Finished (write_slot i v s)"
        by (simp add: advance_def Unwinding SetAtExit)
      show ?thesis unfolding adv
      proof (rule consistent_moved [OF c k, where p = Finished])
        show "slots (set_phase k Finished (write_slot i v s)) =
            (slots s)(tgt s k := expect ((ctxs s ! k)\<lparr>phase_of := Finished\<rparr>))"
          by (simp add: write_slot_empty e i expect_def SetAtExit)
      qed (simp_all add: write_slot_empty e)
    qed
  next
    case Finished
    then show ?thesis using c by (simp add: advance_def)
  qed
qed


subsection \<open>What the other contexts cannot change\<close>

lemma evolves_refl: "evolves s s"
  by (simp add: evolves_def)

lemma evolves_trans:
  assumes "evolves s t" "evolves t u"
  shows "evolves s u"
proof -
  have "body_of ` set (ctxs t) = body_of ` set (ctxs s)"
    using assms(1) by (metis evolves_def set_map)
  then show ?thesis using assms unfolding evolves_def by simp
qed

lemma tgt_in_targets: "k < length (ctxs s) \<Longrightarrow> tgt s k \<in> target ` body_of ` set (ctxs s)"
  by (simp add: tgt_def)

lemma evolves_advance:
  assumes k: "k < length (ctxs s)"
  shows "evolves s (advance k s)"
proof -
  have b: "map body_of (ctxs (advance k s)) = map body_of (ctxs s)"
    by (simp add: advance_def split: phase.splits body.splits)
  have f: "deferred (advance k s) = deferred s" "n_slots (advance k s) = n_slots s"
    "consumed (advance k s) = consumed s" "out (advance k s) = out s"
    by (simp_all add: advance_def split: phase.splits body.splits)
  have q: "\<forall>i. i \<notin> target ` body_of ` set (ctxs s) \<longrightarrow>
           slots (advance k s) i = slots s i \<and> runs_of i (advance k s) = runs_of i s"
  proof (intro allI impI)
    fix i assume "i \<notin> target ` body_of ` set (ctxs s)"
    with tgt_in_targets [OF k] have "i \<noteq> target (body_of (ctxs s ! k))"
      by (auto simp: tgt_def)
    then have "slots (advance k s) i = slots s i"
      by (auto simp: advance_def write_slot_def split: phase.splits body.splits)
    moreover from \<open>i \<noteq> target (body_of (ctxs s ! k))\<close>
    have "runs_of i (advance k s) = runs_of i s"
      by (auto simp: advance_def runs_of_log_ran split: phase.splits body.splits)
    ultimately show "slots (advance k s) i = slots s i \<and> runs_of i (advance k s) = runs_of i s"
      by simp
  qed
  have m: "\<forall>i v. slots s i = Some v \<longrightarrow> slots (advance k s) i = Some v"
    by (auto simp: advance_def write_slot_def split: phase.splits body.splits)
  from b f q m consistent_advance [OF _ k] show ?thesis
    unfolding evolves_def by blast
qed

lemma consistent_steps [simp]: "consistent (s\<lparr>steps := n\<rparr>) = consistent s"
  by (simp add: consistent_def tgt_def runs_of_def)

lemma consistent_points [simp]: "consistent (s\<lparr>points := n\<rparr>) = consistent s"
  by (simp add: consistent_def tgt_def runs_of_def)

lemma evolves_steps: "evolves s (s\<lparr>steps := n\<rparr>)"
  by (simp add: evolves_def runs_of_def)

lemma evolves_points: "evolves s (s\<lparr>points := n\<rparr>)"
  by (simp add: evolves_def runs_of_def)

lemma runnable_bound: "k \<in> set (runnable s) \<Longrightarrow> k < length (ctxs s)"
  by (simp add: runnable_def)

lemma evolves_sched_step: "evolves s (sched_step sch s)"
proof (cases "runnable s = []")
  case True
  then show ?thesis by (simp add: sched_step_def Let_def evolves_steps)
next
  case False
  let ?k = "runnable s ! (pick sch (steps s) mod length (runnable s))"
  let ?s' = "s\<lparr>steps := Suc (steps s)\<rparr>"
  have "?k \<in> set (runnable s)" using False by simp
  then have "?k < length (ctxs ?s')" using runnable_bound by simp
  then have "evolves ?s' (advance ?k ?s')" by (rule evolves_advance)
  with evolves_steps [of s "Suc (steps s)"] have "evolves s (advance ?k ?s')"
    by (rule evolves_trans)
  then show ?thesis using False by (simp add: sched_step_def Let_def)
qed

lemma evolves_sched_steps: "evolves s ((sched_step sch ^^ n) s)"
proof (induction n)
  case 0 show ?case by (simp add: evolves_refl)
next
  case (Suc n)
  have "evolves ((sched_step sch ^^ n) s) (sched_step sch ((sched_step sch ^^ n) s))"
    by (rule evolves_sched_step)
  with Suc show ?case by (auto intro: evolves_trans)
qed

lemma evolves_preempt: "evolves s (preempt sch s)"
  unfolding preempt_def
  by (rule evolves_trans [OF evolves_points evolves_sched_steps])

lemma evolves_consistent: "evolves s t \<Longrightarrow> consistent s \<Longrightarrow> consistent t"
  by (simp add: evolves_def)

subsection \<open>A blocked caller is released\<close>

declare await.simps [simp del]

lemma await_ok:
  assumes "consistent s"
    and "\<And>t. evolves s t \<Longrightarrow> consistent t \<Longrightarrow> \<not> ready t \<Longrightarrow> runnable t \<noteq> []"
  shows "\<exists>s'. await sch ready s = Inr s' \<and> evolves s s' \<and> ready s'"
  using assms
proof (induction sch ready s rule: await.induct)
  case (1 sch ready s)
  show ?case
  proof (cases "ready s")
    case True
    then have "await sch ready s = Inr s" by (subst await.simps) simp
    with True show ?thesis by (auto intro: evolves_refl)
  next
    case False
    from "1.prems"(2) [OF evolves_refl "1.prems"(1) False] have ne: "runnable s \<noteq> []" .
    have ev: "evolves s (sched_step sch s)" by (rule evolves_sched_step)
    have c': "consistent (sched_step sch s)"
      using ev "1.prems"(1) by (rule evolves_consistent)
    have live: "\<And>t. evolves (sched_step sch s) t \<Longrightarrow> consistent t \<Longrightarrow> \<not> ready t
        \<Longrightarrow> runnable t \<noteq> []"
      using "1.prems"(2) evolves_trans [OF ev] by blast
    from "1.IH" [OF False ne c' live] obtain s' where
      s': "await sch ready (sched_step sch s) = Inr s'" "evolves (sched_step sch s) s'" "ready s'"
      by blast
    have "await sch ready s = await sch ready (sched_step sch s)"
      using False ne by (subst await.simps) simp
    with s' ev show ?thesis by (auto intro: evolves_trans)
  qed
qed

lemma expect_None_live: "expect c = None \<Longrightarrow> phase_of c \<noteq> Finished"
  by (auto simp: expect_def split: body.splits if_splits)

lemma expect_Some_final: "expect c = Some v \<Longrightarrow> v = final_value (body_of c)"
  by (auto simp: expect_def split: body.splits if_splits)

lemma live_runnable:
  "k < length (ctxs s) \<Longrightarrow> phase_of (ctxs s ! k) \<noteq> Finished \<Longrightarrow> runnable s \<noteq> []"
proof -
  assume "k < length (ctxs s)" "phase_of (ctxs s ! k) \<noteq> Finished"
  then have "k \<in> set (runnable s)" by (simp add: runnable_def)
  then show ?thesis by auto
qed

lemma evolves_body:
  assumes "evolves s t" "k < length (ctxs s)"
  shows "k < length (ctxs t)" "body_of (ctxs t ! k) = body_of (ctxs s ! k)" "tgt t k = tgt s k"
proof -
  have m: "map body_of (ctxs t) = map body_of (ctxs s)" using assms(1) by (simp add: evolves_def)
  then have "length (ctxs t) = length (ctxs s)" by (metis length_map)
  with assms(2) show k: "k < length (ctxs t)" by simp
  from m have "map body_of (ctxs t) ! k = map body_of (ctxs s) ! k" by simp
  with k assms(2) show b: "body_of (ctxs t ! k) = body_of (ctxs s ! k)" by simp
  then show "tgt t k = tgt s k" by (simp add: tgt_def)
qed

text \<open>Waiting for the slot of a context's result, and for the end of a context.\<close>

lemma await_slot:
  assumes c: "consistent s" and k: "k < length (ctxs s)"
  shows "\<exists>s'. await sch (\<lambda>t. slots t (tgt s k) \<noteq> None) s = Inr s' \<and> evolves s s'
     \<and> slots s' (tgt s k) = Some (final_value (body_of (ctxs s ! k)))"
proof -
  have "\<exists>s'. await sch (\<lambda>t. slots t (tgt s k) \<noteq> None) s = Inr s' \<and> evolves s s'
     \<and> slots s' (tgt s k) \<noteq> None"
  proof (rule await_ok [OF c])
    fix t assume ev: "evolves s t" and ct: "consistent t" and nr: "\<not> slots t (tgt s k) \<noteq> None"
    from evolves_body [OF ev k] have kt: "k < length (ctxs t)" "tgt t k = tgt s k" by simp_all
    from ct kt(1) have "slots t (tgt t k) = expect (ctxs t ! k)" by (simp add: consistent_def)
    with nr kt(2) have "expect (ctxs t ! k) = None" by simp
    then have "phase_of (ctxs t ! k) \<noteq> Finished" by (rule expect_None_live)
    with kt(1) show "runnable t \<noteq> []" by (rule live_runnable)
  qed
  then obtain s' where s': "await sch (\<lambda>t. slots t (tgt s k) \<noteq> None) s = Inr s'"
    "evolves s s'" "slots s' (tgt s k) \<noteq> None" by blast
  from evolves_body [OF s'(2) k] have ks: "k < length (ctxs s')" "tgt s' k = tgt s k"
    "body_of (ctxs s' ! k) = body_of (ctxs s ! k)" by simp_all
  have "consistent s'" using s'(2) c by (rule evolves_consistent)
  with ks(1) have "slots s' (tgt s' k) = expect (ctxs s' ! k)" by (simp add: consistent_def)
  with s'(3) ks(2) obtain v where v: "expect (ctxs s' ! k) = Some v" "slots s' (tgt s k) = Some v"
    by auto
  from expect_Some_final [OF v(1)] ks(3) v(2) s'(1,2) show ?thesis by simp
qed

lemma await_finished:
  assumes c: "consistent s" and k: "k < length (ctxs s)"
  shows "\<exists>s'. await sch (\<lambda>t. k < length (ctxs t) \<and> phase_of (ctxs t ! k) = Finished) s = Inr s'
     \<and> evolves s s' \<and> phase_of (ctxs s' ! k) = Finished"
proof -
  have "\<exists>s'. await sch (\<lambda>t. k < length (ctxs t) \<and> phase_of (ctxs t ! k) = Finished) s = Inr s'
     \<and> evolves s s' \<and> (k < length (ctxs s') \<and> phase_of (ctxs s' ! k) = Finished)"
  proof (rule await_ok [OF c])
    fix t assume ev: "evolves s t"
      and nr: "\<not> (k < length (ctxs t) \<and> phase_of (ctxs t ! k) = Finished)"
    from evolves_body [OF ev k] have kt: "k < length (ctxs t)" by simp
    with nr have "phase_of (ctxs t ! k) \<noteq> Finished" by simp
    with kt show "runnable t \<noteq> []" by (rule live_runnable)
  qed
  then show ?thesis by blast
qed

subsection \<open>The shape of a state is kept by the other contexts\<close>

lemma targets_bodies:
  "map body_of (ctxs s) = bs \<Longrightarrow> target ` body_of ` set (ctxs s) = target ` set bs"
  by (metis set_map)

lemma target_index:
  "i \<in> target ` body_of ` set (ctxs s) \<Longrightarrow> \<exists>k<length (ctxs s). tgt s k = i"
  by (auto simp: in_set_conv_nth tgt_def)

lemma deferred_not_target:
  assumes "consistent s" "deferred s i \<noteq> None"
  shows "i \<notin> target ` body_of ` set (ctxs s)"
proof
  assume "i \<in> target ` body_of ` set (ctxs s)"
  then obtain k where "k < length (ctxs s)" "tgt s k = i" using target_index by blast
  with assms(1) have "deferred s i = None" by (auto simp: consistent_def)
  with assms(2) show False by simp
qed

lemma models_evolves:
  assumes m: "models s a" and ev: "evolves s t"
  shows "models t a"
proof -
  from m have c: "consistent s" by (simp add: models_def)
  from ev c have ct: "consistent t" by (rule evolves_consistent)
  from m have tb: "target ` body_of ` set (ctxs s) = target ` set (bodies a)"
    by (simp add: models_def targets_bodies)
  have quiet: "\<And>i. i \<notin> target ` set (bodies a) \<Longrightarrow> slots t i = slots s i"
    using ev tb by (simp add: evolves_def)
  have idle: "\<forall>i\<in>set (idle a). i < fresh a \<and> slots t i = None \<and> lazy a i = None
           \<and> i \<notin> target ` set (bodies a)"
    using m quiet by (simp add: models_def)
  have lz: "\<forall>i. lazy a i \<noteq> None \<longrightarrow> (i \<in> set (forced a) \<longleftrightarrow> slots t i \<noteq> None)"
  proof (intro allI impI)
    fix i assume l: "lazy a i \<noteq> None"
    with m have "deferred s i \<noteq> None" by (simp add: models_def)
    from deferred_not_target [OF c this] tb have "i \<notin> target ` set (bodies a)" by simp
    then have "slots t i = slots s i" by (rule quiet)
    with m l show "i \<in> set (forced a) \<longleftrightarrow> slots t i \<noteq> None" by (simp add: models_def)
  qed
  from m ev have "map body_of (ctxs t) = bodies a" "deferred t = lazy a" "n_slots t = fresh a"
    "consumed t = taken a" "out t = printed a" "\<forall>i\<in>set (forced a). i < fresh a"
    by (simp_all add: models_def evolves_def)
  with ct idle lz show ?thesis unfolding models_def by blast
qed

lemma models_preempt: "models s a \<Longrightarrow> models (preempt sch s) a"
  by (rule models_evolves [OF _ evolves_preempt])

lemma models_boot: "models boot shape0"
  by (simp add: models_def consistent_def boot_def shape0_def runs_of_def)

subsection \<open>Composition\<close>

lemma sim_then:
  assumes "sim m a x a1" "sim (k x) a1 y a2"
  shows "sim (then_do m k) a y a2"
  unfolding sim_def
proof (intro allI impI)
  fix s assume "models s a"
  with assms(1) obtain s1 where s1: "m s = Inr (x, s1)" "models s1 a1"
    unfolding sim_def by blast
  with assms(2) obtain s2 where "k x s1 = Inr (y, s2)" "models s2 a2"
    unfolding sim_def by blast
  with s1(1) show "\<exists>s'. then_do m k s = Inr (y, s') \<and> models s' a2"
    by (simp add: then_do_def)
qed

lemma sim_ret: "sim (ret x) a x a"
  by (simp add: sim_def ret_def)

lemma sim_assert: "b \<Longrightarrow> sim (configASSERT b) a () a"
  by (simp add: sim_def configASSERT_def)

lemma sim_run:
  assumes "sim m a x a'" "models s a"
  shows "\<exists>s'. m s = Inr (x, s') \<and> models s' a'"
  using assms unfolding sim_def by blast

subsection \<open>Calls that only pass a scheduling point\<close>

lemma consistent_out [simp]: "consistent (s\<lparr>out := x\<rparr>) = consistent s"
  by (simp add: consistent_def tgt_def runs_of_def)

lemma consistent_detached [simp]: "consistent (s\<lparr>detached := x\<rparr>) = consistent s"
  by (simp add: consistent_def tgt_def runs_of_def)

lemma consistent_consume:
  "consistent s \<Longrightarrow> i < n_slots s \<Longrightarrow> consistent (s\<lparr>consumed := i # consumed s\<rparr>)"
  by (simp add: consistent_def tgt_def runs_of_def)

lemma models_out:
  "models s a \<Longrightarrow> models (s\<lparr>out := out s @ [e]\<rparr>) (a\<lparr>printed := printed a @ [e]\<rparr>)"
  by (simp add: models_def)

lemma sim_call: "sim (call sch e) a () (a\<lparr>printed := printed a @ [e]\<rparr>)"
  by (simp add: sim_def call_def models_out models_preempt)

lemma sim_get_future: "sim (get_future sch i) a i a"
  by (simp add: sim_def get_future_def models_preempt)

lemma models_detached: "models s a \<Longrightarrow> models (s\<lparr>detached := d\<rparr>) a"
  by (simp add: models_def)

lemma sim_detach: "sim (thread_detach sch k) a () a"
  by (simp add: sim_def thread_detach_def models_detached models_preempt)

subsection \<open>New slots and new contexts\<close>

lemma target_below:
  assumes "consistent s" "i \<in> target ` body_of ` set (ctxs s)"
  shows "i < n_slots s"
proof -
  from target_index [OF assms(2)] obtain k where "k < length (ctxs s)" "tgt s k = i" by blast
  with assms(1) show ?thesis by (auto simp: consistent_def)
qed

lemma models_new_slot:
  assumes m: "models s a"
  shows "models (s\<lparr>n_slots := Suc (n_slots s)\<rparr>) (a\<lparr>fresh := Suc (fresh a), idle := fresh a # idle a\<rparr>)"
proof -
  from m have c: "consistent s" and n: "n_slots s = fresh a" by (simp_all add: models_def)
  have c': "consistent (s\<lparr>n_slots := Suc (n_slots s)\<rparr>)"
    using c unfolding consistent_def tgt_def runs_of_def
    by (auto simp: less_Suc_eq)
  from c have top: "slots s (fresh a) = None" "deferred s (fresh a) = None"
    by (simp_all add: consistent_def n [symmetric])
  have "fresh a \<notin> target ` body_of ` set (ctxs s)"
    using target_below [OF c, of "fresh a"] n by auto
  with m have nt: "fresh a \<notin> target ` set (bodies a)"
    by (simp add: models_def targets_bodies)
  from m top nt c' show ?thesis
    by (auto simp: models_def less_Suc_eq)
qed

lemma expect_Ready: "expect \<lparr>body_of = b, phase_of = Ready\<rparr> = None"
  by (cases b) (simp_all add: expect_def)

lemma consistent_spawn:
  assumes c: "consistent s" and b: "target b < n_slots s" "slots s (target b) = None"
    "deferred s (target b) = None" "target b \<notin> target ` body_of ` set (ctxs s)"
  shows "consistent (s\<lparr>ctxs := ctxs s @ [\<lparr>body_of = b, phase_of = Ready\<rparr>]\<rparr>)"
proof -
  let ?s' = "s\<lparr>ctxs := ctxs s @ [\<lparr>body_of = b, phase_of = Ready\<rparr>]\<rparr>"
  have c1: "\<forall>k<length (ctxs ?s'). tgt ?s' k < n_slots ?s' \<and> deferred ?s' (tgt ?s' k) = None
        \<and> slots ?s' (tgt ?s' k) = expect (ctxs ?s' ! k)"
  proof (intro allI impI)
    fix k assume "k < length (ctxs ?s')"
    then consider "k < length (ctxs s)" | "k = length (ctxs s)" by fastforce
    then show "tgt ?s' k < n_slots ?s' \<and> deferred ?s' (tgt ?s' k) = None
        \<and> slots ?s' (tgt ?s' k) = expect (ctxs ?s' ! k)"
    proof cases
      case 1
      with c show ?thesis by (simp add: consistent_def tgt_def nth_append)
    next
      case 2
      with b show ?thesis by (simp add: tgt_def expect_Ready)
    qed
  qed
  have c2: "distinct (map (\<lambda>c. target (body_of c)) (ctxs ?s'))"
    using c b(4) by (auto simp: consistent_def)
  from c c1 c2 show ?thesis
    unfolding consistent_def by (simp add: runs_of_def)
qed

lemma models_spawn:
  assumes m: "models s a" and i: "target b \<in> set (idle a)"
  shows "models (s\<lparr>ctxs := ctxs s @ [\<lparr>body_of = b, phase_of = Ready\<rparr>]\<rparr>)
           (a\<lparr>bodies := bodies a @ [b], idle := removeAll (target b) (idle a)\<rparr>)"
proof -
  from m have c: "consistent s" by (simp add: models_def)
  from m i have f: "target b < n_slots s" "slots s (target b) = None"
    "deferred s (target b) = None" "target b \<notin> target ` set (bodies a)"
    by (auto simp: models_def)
  from m f(4) have "target b \<notin> target ` body_of ` set (ctxs s)"
    by (simp add: models_def targets_bodies)
  from consistent_spawn [OF c f(1-3) this] m show ?thesis
    by (auto simp: models_def)
qed

lemma sim_thread_start:
  assumes "target b \<in> set (idle a)"
  shows "sim (thread_start sch b) a (length (bodies a))
           (a\<lparr>bodies := bodies a @ [b], idle := removeAll (target b) (idle a)\<rparr>)"
  unfolding sim_def
proof (intro allI impI)
  fix s assume m: "models s a"
  then have "length (ctxs s) = length (bodies a)" by (metis models_def length_map)
  with models_preempt [OF models_spawn [OF m assms]]
  show "\<exists>s'. thread_start sch b s = Inr (length (bodies a), s')
      \<and> models s' (a\<lparr>bodies := bodies a @ [b], idle := removeAll (target b) (idle a)\<rparr>)"
    by (simp add: thread_start_def spawn_def)
qed

lemma sim_packaged_task:
  "sim (packaged_task sch f) a (fresh a, f) (a\<lparr>fresh := Suc (fresh a), idle := fresh a # idle a\<rparr>)"
  unfolding sim_def
proof (intro allI impI)
  fix s assume m: "models s a"
  then have "n_slots s = fresh a" by (simp add: models_def)
  with models_preempt [OF models_new_slot [OF m]]
  show "\<exists>s'. packaged_task sch f s = Inr ((fresh a, f), s')
      \<and> models s' (a\<lparr>fresh := Suc (fresh a), idle := fresh a # idle a\<rparr>)"
    by (simp add: packaged_task_def new_slot_def)
qed

lemma sim_promise:
  "sim (promise sch) a (fresh a) (a\<lparr>fresh := Suc (fresh a), idle := fresh a # idle a\<rparr>)"
  unfolding sim_def
proof (intro allI impI)
  fix s assume m: "models s a"
  then have "n_slots s = fresh a" by (simp add: models_def)
  with models_preempt [OF models_new_slot [OF m]]
  show "\<exists>s'. promise sch s = Inr (fresh a, s')
      \<and> models s' (a\<lparr>fresh := Suc (fresh a), idle := fresh a # idle a\<rparr>)"
    by (simp add: promise_def new_slot_def)
qed

subsection \<open>Dispatch\<close>

lemma idle_below: "models s a \<Longrightarrow> removeAll (fresh a) (idle a) = idle a"
proof -
  assume "models s a"
  then have "fresh a \<notin> set (idle a)" by (auto simp: models_def)
  then show ?thesis by simp
qed

lemma sim_async_Async:
  "sim (std_async sch Async f) a (fresh a)
     (a\<lparr>fresh := Suc (fresh a), bodies := bodies a @ [Fulfil (fresh a) f]\<rparr>)"
  unfolding sim_def
proof (intro allI impI)
  fix s assume m: "models s a"
  then have n: "n_slots s = fresh a" by (simp add: models_def)
  let ?a1 = "a\<lparr>fresh := Suc (fresh a), idle := fresh a # idle a\<rparr>"
  let ?s1 = "s\<lparr>n_slots := Suc (n_slots s)\<rparr>"
  have m1: "models ?s1 ?a1" using m by (rule models_new_slot)
  have "target (Fulfil (fresh a) f) \<in> set (idle ?a1)" by simp
  from models_preempt [OF models_spawn [OF m1 this], of sch] idle_below [OF m]
  have "models (preempt sch (?s1\<lparr>ctxs := ctxs ?s1 @ [\<lparr>body_of = Fulfil (fresh a) f, phase_of = Ready\<rparr>]\<rparr>))
     (a\<lparr>fresh := Suc (fresh a), bodies := bodies a @ [Fulfil (fresh a) f]\<rparr>)"
    by simp
  then show "\<exists>s'. std_async sch Async f s = Inr (fresh a, s')
      \<and> models s' (a\<lparr>fresh := Suc (fresh a), bodies := bodies a @ [Fulfil (fresh a) f]\<rparr>)"
    by (simp add: std_async_def new_slot_def spawn_def n)
qed

lemma consistent_defer:
  assumes c: "consistent s"
  shows "consistent (s\<lparr>n_slots := Suc (n_slots s), deferred := (deferred s)(n_slots s := Some f)\<rparr>)"
  using c unfolding consistent_def tgt_def runs_of_def
  by (auto simp: less_Suc_eq)

lemma sim_async_Deferred:
  "sim (std_async sch Deferred f) a (fresh a)
     (a\<lparr>lazy := (lazy a)(fresh a := Some f), fresh := Suc (fresh a)\<rparr>)"
  unfolding sim_def
proof (intro allI impI)
  fix s assume m: "models s a"
  then have n: "n_slots s = fresh a" and c: "consistent s" by (simp_all add: models_def)
  let ?s2 = "s\<lparr>n_slots := Suc (n_slots s), deferred := (deferred s)(n_slots s := Some f)\<rparr>"
  have c2: "consistent ?s2" using c by (rule consistent_defer)
  from c have top: "slots s (fresh a) = None" by (simp add: consistent_def n [symmetric])
  have "models ?s2 (a\<lparr>lazy := (lazy a)(fresh a := Some f), fresh := Suc (fresh a)\<rparr>)"
    unfolding models_def using m c2 top
    by (auto simp: models_def n less_Suc_eq)
  from models_preempt [OF this, of sch]
  show "\<exists>s'. std_async sch Deferred f s = Inr (fresh a, s')
      \<and> models s' (a\<lparr>lazy := (lazy a)(fresh a := Some f), fresh := Suc (fresh a)\<rparr>)"
    by (simp add: std_async_def new_slot_def n)
qed

subsection \<open>Waiting and taking\<close>

lemma evolves_slot: "evolves s t \<Longrightarrow> slots s i = Some v \<Longrightarrow> slots t i = Some v"
  by (simp add: evolves_def)

lemma consistent_force:
  assumes c: "consistent s" and d: "deferred s i = Some f" and e: "slots s i = None"
  shows "consistent (log_ran i Caller (write_slot i (f ()) s))"
proof -
  let ?s' = "log_ran i Caller (write_slot i (f ()) s)"
  have sl0: "slots (write_slot i (f ()) s) = (slots s)(i := Some (f ()))"
    by (simp add: write_slot_empty e)
  have sl: "slots ?s' = (slots s)(i := Some (f ()))" by (simp add: sl0)
  have fl: "faults (write_slot i (f ()) s) = faults s" by (simp add: write_slot_empty e)
  have rn: "\<And>j. runs_of j ?s' = runs_of j s @ (if i = j then [(i, Caller)] else [])"
    by (simp add: runs_of_log_ran)
  have tg: "\<And>k. tgt ?s' k = tgt s k" by (simp add: tgt_def)
  from c d have i: "i < n_slots s" "runs_of i s = []"
    using e unfolding consistent_def by auto
  have nt: "\<And>k. k < length (ctxs s) \<Longrightarrow> tgt s k \<noteq> i"
    using c d unfolding consistent_def by auto
  have c1: "\<forall>k<length (ctxs ?s'). tgt ?s' k < n_slots ?s' \<and> deferred ?s' (tgt ?s' k) = None
        \<and> slots ?s' (tgt ?s' k) = expect (ctxs ?s' ! k)"
    using c nt by (simp add: consistent_def tg sl0)
  have c2: "distinct (map (\<lambda>c. target (body_of c)) (ctxs ?s'))"
    using c by (simp add: consistent_def)
  have c3: "\<forall>j g. deferred ?s' j = Some g \<longrightarrow>
       j < n_slots ?s' \<and> (slots ?s' j = None \<or> slots ?s' j = Some (g ()))
       \<and> runs_of j ?s' = (if slots ?s' j = None then [] else [(j, Caller)])"
  proof (intro allI impI)
    fix j g assume dj: "deferred ?s' j = Some g"
    show "j < n_slots ?s' \<and> (slots ?s' j = None \<or> slots ?s' j = Some (g ()))
       \<and> runs_of j ?s' = (if slots ?s' j = None then [] else [(j, Caller)])"
    proof (cases "j = i")
      case True
      with dj d have "g = f" by simp
      with True i show ?thesis by (simp add: sl0 rn)
    next
      case False
      from c dj have "j < n_slots s \<and> (slots s j = None \<or> slots s j = Some (g ()))
       \<and> runs_of j s = (if slots s j = None then [] else [(j, Caller)])"
        unfolding consistent_def by simp
      with False show ?thesis by (simp add: sl0 rn)
    qed
  qed
  have c4: "\<forall>j. n_slots ?s' \<le> j \<longrightarrow> slots ?s' j = None \<and> deferred ?s' j = None
      \<and> runs_of j ?s' = []"
    using c i(1) by (auto simp: consistent_def sl0 rn)
  have c5: "faults ?s' = []" using c by (simp add: fl consistent_def)
  have c6: "\<forall>j\<in>set (consumed ?s'). j < n_slots ?s'"
    using c by (simp add: consistent_def)
  from c1 c2 c3 c4 c5 c6 show ?thesis unfolding consistent_def by blast
qed

lemma promised_body:
  assumes m: "models s a" and l: "lazy a i = None" and p: "promised a i = Some v"
  shows "\<exists>k<length (ctxs s). tgt s k = i \<and> final_value (body_of (ctxs s ! k)) = v"
proof -
  from p l obtain b where b: "find (\<lambda>b. target b = i) (bodies a) = Some b" "final_value b = v"
    by (auto simp: promised_def)
  from b(1) obtain k where k: "k < length (bodies a)" "target (bodies a ! k) = i" "b = bodies a ! k"
    by (auto simp: find_Some_iff)
  from m have mb: "map body_of (ctxs s) = bodies a" by (simp add: models_def)
  then have len: "length (ctxs s) = length (bodies a)" by (metis length_map)
  from mb have "map body_of (ctxs s) ! k = bodies a ! k" by simp
  with k(1) len have "body_of (ctxs s ! k) = bodies a ! k" by simp
  with k b(2) len show ?thesis by (auto simp: tgt_def)
qed

lemma wait_ok:
  assumes m: "models s a" and p: "promised a i = Some v"
  shows "\<exists>s'. future_wait sch i s = Inr ((), s') \<and> models s' (force i a) \<and> slots s' i = Some v"
proof (cases "lazy a i")
  case None
  from m have d: "deferred s i = None" by (simp add: models_def None)
  from m have c: "consistent s" by (simp add: models_def)
  from promised_body [OF m None p] obtain k where
    k: "k < length (ctxs s)" "tgt s k = i" "final_value (body_of (ctxs s ! k)) = v" by blast
  from await_slot [OF c k(1), of sch] k(2,3) obtain s1 where
    s1: "await sch (\<lambda>t. slots t i \<noteq> None) s = Inr s1" "evolves s s1" "slots s1 i = Some v"
    by auto
  have m1: "models (preempt sch s1) a"
    using models_evolves [OF m s1(2)] by (rule models_preempt)
  have "slots (preempt sch s1) i = Some v"
    using evolves_preempt s1(3) by (rule evolves_slot)
  with m1 s1(1) d show ?thesis by (simp add: future_wait_def force_def None)
next
  case (Some f)
  from m have d: "deferred s i = Some f" by (simp add: models_def Some)
  from m have c: "consistent s" by (simp add: models_def)
  from p Some have v: "v = f ()" by (simp add: promised_def)
  show ?thesis
  proof (cases "slots s i")
    case None
    let ?s1 = "log_ran i Caller (write_slot i (f ()) s)"
    have c1: "consistent ?s1" using c d None by (rule consistent_force)
    from m None Some have nf: "i \<notin> set (forced a)" by (auto simp: models_def)
    from c d have ib: "i < n_slots s" unfolding consistent_def by auto
    have sl: "slots (write_slot i (f ()) s) = (slots s)(i := Some (f ()))"
      by (simp add: write_slot_empty None)
    have "models ?s1 (a\<lparr>forced := i # forced a\<rparr>)"
      unfolding models_def using m c1 ib Some
      by (auto simp: models_def sl)
    then have m1: "models (preempt sch ?s1) (force i a)"
      using nf Some by (simp add: force_def models_preempt)
    have "slots (preempt sch ?s1) i = Some v"
      by (rule evolves_slot [OF evolves_preempt]) (simp add: sl v)
    with m1 d None show ?thesis by (simp add: future_wait_def)
  next
    case (Some w)
    from c d have "slots s i = None \<or> slots s i = Some (f ())"
      unfolding consistent_def by blast
    with Some have w: "w = f ()" by simp
    from m Some \<open>lazy a i = Some f\<close> have "i \<in> set (forced a)" by (auto simp: models_def)
    then have fa: "force i a = a" by (simp add: force_def)
    have "slots (preempt sch s) i = Some v"
      using evolves_preempt by (rule evolves_slot) (simp add: Some w v)
    with models_preempt [OF m, of sch] d Some fa show ?thesis
      by (simp add: future_wait_def)
  qed
qed

lemma sim_wait: "promised a i = Some v \<Longrightarrow> sim (future_wait sch i) a () (force i a)"
  unfolding sim_def using wait_ok by blast

lemma taken_force [simp]: "taken (force i a) = taken a"
  by (simp add: force_def)

lemma get_ok:
  assumes m: "models s a" and p: "promised a i = Some v" and t: "i \<notin> set (taken a)"
  shows "\<exists>s'. future_get sch i s = Inr (v, s') \<and> models s' ((force i a)\<lparr>taken := i # taken a\<rparr>)
     \<and> slots s' i = Some v"
proof -
  from wait_ok [OF m p, of sch] obtain s1 where
    s1: "future_wait sch i s = Inr ((), s1)" "models s1 (force i a)" "slots s1 i = Some v"
    by blast
  from m t have nc: "i \<notin> set (consumed s)" by (simp add: models_def)
  from s1(2) s1(3) have "i < n_slots s1"
    unfolding models_def consistent_def by (metis not_le option.distinct(1))
  moreover from s1(2) have "consistent s1" by (simp add: models_def)
  ultimately have "consistent (s1\<lparr>consumed := i # consumed s1\<rparr>)"
    by (simp only: consistent_consume)
  with s1(2) have "models (s1\<lparr>consumed := i # consumed s1\<rparr>) ((force i a)\<lparr>taken := i # taken a\<rparr>)"
    by (simp add: models_def)
  with s1(1,3) nc show ?thesis by (simp add: future_get_def)
qed

lemma sim_get:
  "promised a i = Some v \<Longrightarrow> i \<notin> set (taken a) \<Longrightarrow>
   sim (future_get sch i) a v ((force i a)\<lparr>taken := i # taken a\<rparr>)"
  unfolding sim_def using get_ok by blast

lemma join_ok:
  assumes m: "models s a" and k: "k < length (bodies a)"
  shows "\<exists>s'. thread_join sch k s = Inr ((), s') \<and> models s' a"
proof -
  from m have c: "consistent s" by (simp add: models_def)
  from m k have "k < length (ctxs s)" by (metis models_def length_map)
  from await_finished [OF c this, of sch] obtain s1 where
    s1: "await sch (\<lambda>t. k < length (ctxs t) \<and> phase_of (ctxs t ! k) = Finished) s = Inr s1"
    "evolves s s1" by blast
  from models_preempt [OF models_evolves [OF m s1(2)], of sch] s1(1)
  show ?thesis by (simp add: thread_join_def)
qed

lemma sim_join: "k < length (bodies a) \<Longrightarrow> sim (thread_join sch k) a () a"
  unfolding sim_def using join_ok by blast

subsection \<open>\<open>task3\<close>, step by step\<close>

lemma sim_async: "sim (std_async sch pol f) a (fresh a) (dispatched pol f a)"
  by (cases pol) (simp_all add: dispatched_def sim_async_Async sim_async_Deferred)

lemma sim_take:
  "promised a i = Some v \<Longrightarrow> i \<notin> set (taken a) \<Longrightarrow> sim (future_get sch i) a v (took i a)"
  unfolding took_def by (rule sim_get)

lemma sim_ret_eq: "x = y \<Longrightarrow> a = a' \<Longrightarrow> sim (ret x) a y a'"
  by (simp add: sim_ret)

lemma sim_end: "sim m a x a1 \<Longrightarrow> a1 = a' \<Longrightarrow> sim m a x a'"
  by simp

lemma task3_futures_sim:
  "sim (task3_futures dflt sch) shape0 (0, 1, 2) (futures_shape dflt)"
  unfolding task3_futures_def
  apply (rule sim_then [OF sim_call])+
  apply (rule sim_then [OF sim_async])+
  apply (rule sim_ret_eq)
   apply (cases dflt; simp add: dispatched_def shape0_def)
  apply (cases dflt; simp add: futures_shape_def dispatched_def shape0_def)
  done

lemma futures_shape_facts:
  "promised (futures_shape dflt) 0 = Some 2"
  "promised (futures_shape dflt) (Suc 0) = Some 3"
  "promised (futures_shape dflt) 2 = Some 5"
  "taken (futures_shape dflt) = []"
  "forced (futures_shape dflt) = []"
  "idle (futures_shape dflt) = []"
  "fresh (futures_shape dflt) = 3"
  "lazy (futures_shape dflt) 2 = Some (\<lambda>_. 5)"
  "2 \<notin> target ` set (bodies (futures_shape dflt))"
  "length (bodies (futures_shape dflt)) = (if dflt = Async then 2 else 1)"
  by (cases dflt; simp add: futures_shape_def dispatched_def shape0_def promised_def)+

lemma took_fields [simp]:
  "bodies (took i a) = bodies a" "lazy (took i a) = lazy a" "fresh (took i a) = fresh a"
  "taken (took i a) = i # taken a" "printed (took i a) = printed a" "idle (took i a) = idle a"
  by (simp_all add: took_def force_def)

lemma force_fields [simp]:
  "bodies (force i a) = bodies a" "lazy (force i a) = lazy a" "fresh (force i a) = fresh a"
  "printed (force i a) = printed a" "idle (force i a) = idle a"
  by (simp_all add: force_def)

lemma promised_took [simp]: "promised (took i a) j = promised a j"
  by (simp add: promised_def split: option.splits)

lemma promised_force [simp]: "promised (force i a) j = promised a j"
  by (simp add: promised_def split: option.splits)

lemma promised_printed [simp]: "promised (a\<lparr>printed := x\<rparr>) j = promised a j"
  by (simp add: promised_def split: option.splits)

lemma promised_idle [simp]: "promised (a\<lparr>idle := x\<rparr>) j = promised a j"
  by (simp add: promised_def split: option.splits)

lemma promised_fresh [simp]: "promised (a\<lparr>fresh := x\<rparr>) j = promised a j"
  by (simp add: promised_def split: option.splits)

lemma task3_sum_sim:
  "sim (task3_sum sch (0, 1, 2)) (futures_shape dflt) 10
     (took 2 (took 1 (took 0 (futures_shape dflt))))"
  unfolding task3_sum_def prod.case
  apply (rule sim_then [OF sim_take [where v = 2]])
    apply (simp add: futures_shape_facts)
   apply (simp add: futures_shape_facts)
  apply (rule sim_then [OF sim_take [where v = 3]])
    apply (simp add: futures_shape_facts)
   apply (simp add: futures_shape_facts)
  apply (rule sim_then [OF sim_take [where v = 5]])
    apply (simp add: futures_shape_facts)
   apply (simp add: futures_shape_facts)
  apply (rule sim_ret_eq)
   apply simp
  apply simp
  done


lemma task3_producers_sim:
  assumes "fresh a \<notin> set (idle a)" "Suc (Suc (fresh a)) \<notin> set (idle a)"
  shows "sim (task3_producers sch) a
     (length (bodies a), fresh a, Suc (fresh a), Suc (Suc (fresh a))) (produced a)"
  unfolding task3_producers_def
  apply (rule sim_then [OF sim_packaged_task])
  apply (rule sim_then [OF sim_get_future])
  apply (rule sim_then [OF sim_thread_start])
   apply simp
  apply (rule sim_then [OF sim_async])
  apply (rule sim_then [OF sim_promise])
  apply (rule sim_then [OF sim_get_future])
  apply (rule sim_then [OF sim_thread_start])
   apply (simp add: dispatched_def)
  apply (rule sim_then [OF sim_detach])
  apply (rule sim_ret_eq)
   apply (simp add: dispatched_def)
  apply (simp add: dispatched_def produced_def assms)
  done


lemma task3_results_sim:
  assumes "promised a f1 = Some v1" "promised a f2 = Some v2" "promised a f3 = Some v3"
    and "f1 \<notin> set (taken a)" "f2 \<notin> set (taken a)" "f3 \<notin> set (taken a)"
    and "f1 \<noteq> f2" "f1 \<noteq> f3" "f2 \<noteq> f3"
  shows "sim (task3_results sch (f1, f2, f3)) a (v1, v2, v3)
     (took f3 (took f2 (took f1 (force f3 (force f2 (force f1
        (a\<lparr>printed := printed a @ [Println ''Waiting...'', Flush]\<rparr>)))))))"
  unfolding task3_results_def prod.case
  apply (rule sim_then [OF sim_call])+
  apply (rule sim_then [OF sim_wait [where v = v1]])
   apply (simp add: assms assms(7-9) [symmetric])
  apply (rule sim_then [OF sim_wait [where v = v2]])
   apply (simp add: assms assms(7-9) [symmetric])
  apply (rule sim_then [OF sim_wait [where v = v3]])
   apply (simp add: assms assms(7-9) [symmetric])
  apply (rule sim_then [OF sim_take [where v = v1]])
    apply (simp add: assms assms(7-9) [symmetric])
   apply (simp add: assms assms(7-9) [symmetric])
  apply (rule sim_then [OF sim_take [where v = v2]])
    apply (simp add: assms assms(7-9) [symmetric])
   apply (simp add: assms assms(7-9) [symmetric])
  apply (rule sim_then [OF sim_take [where v = v3]])
    apply (simp add: assms assms(7-9) [symmetric])
   apply (simp add: assms assms(7-9) [symmetric])
  apply (rule sim_ret_eq)
   apply simp
  apply simp
  done

lemma summed_facts:
  "fresh (summed dflt) = 3" "idle (summed dflt) = []" "taken (summed dflt) = [2, 1, 0]"
  "lazy (summed dflt) 3 = None" "lazy (summed dflt) 4 = None" "lazy (summed dflt) 5 = None"
  "length (bodies (summed dflt)) = (if dflt = Async then 2 else 1)"
  "\<forall>b\<in>set (bodies (summed dflt)). target b < 3"
  by (cases dflt; simp add: summed_def futures_shape_def dispatched_def shape0_def)+

lemma produced_facts:
  "promised (produced (summed dflt)) 3 = Some 7"
  "promised (produced (summed dflt)) 4 = Some 8"
  "promised (produced (summed dflt)) 5 = Some 9"
  "taken (produced (summed dflt)) = [2, 1, 0]"
  "length (bodies (summed dflt)) < length (bodies (produced (summed dflt)))"
  by (cases dflt; simp add: produced_def promised_def summed_def futures_shape_def
      dispatched_def shape0_def)+

lemma task3_sim:
  "\<exists>a. sim (task3 dflt sch) shape0 () a
     \<and> printed a = printed (futures_shape dflt) @
         [Printf (''r=%d'' @ [LF, CR]) [10], Println ''Waiting...'', Flush,
          Printf (''Done!'' @ [LF] @ ''Results are: %d %d %d'' @ [LF, CR]) [7, 8, 9],
          Flush, TaskSuspend]"
  unfolding task3_def
  apply (rule exI)
  apply (rule conjI)
   apply (rule sim_then [OF task3_futures_sim])
   apply (rule sim_then [OF task3_sum_sim])
   apply (rule sim_then [OF sim_end [OF sim_call, where a' = "summed dflt"]])
    apply (simp add: summed_def)
   apply (rule sim_then [OF sim_assert])
    apply simp
   apply (rule sim_then [OF task3_producers_sim])
     apply (simp add: summed_facts)
    apply (simp add: summed_facts)
   apply (simp only: prod.case summed_facts)
   apply (rule sim_then [OF task3_results_sim [where ?v1.0 = 7 and ?v2.0 = 8 and ?v3.0 = 9]])
            apply (simp_all add: produced_facts)[9]
   apply (simp only: prod.case)
   apply (rule sim_then [OF sim_call])
   apply (rule sim_then [OF sim_call])
   apply (rule sim_then [OF sim_assert])
    apply simp
   apply (rule sim_then [OF sim_join])
    apply (cases dflt; simp add: produced_def summed_def futures_shape_def dispatched_def shape0_def)
   apply (rule sim_call)
  apply (simp add: produced_def summed_def)
  done

subsection \<open>From any consistent state\<close>

lemma models_shape_of:
  assumes c: "consistent s"
  shows "models s (shape_of s)"
proof -
  have "\<forall>i. deferred s i \<noteq> None \<longrightarrow>
      (i \<in> set (filter (\<lambda>i. deferred s i \<noteq> None \<and> slots s i \<noteq> None) [0..<n_slots s])
         \<longleftrightarrow> slots s i \<noteq> None)"
  proof (intro allI impI)
    fix i assume "deferred s i \<noteq> None"
    then obtain f where "deferred s i = Some f" by auto
    with c have "i < n_slots s" unfolding consistent_def by blast
    with \<open>deferred s i \<noteq> None\<close>
    show "i \<in> set (filter (\<lambda>i. deferred s i \<noteq> None \<and> slots s i \<noteq> None) [0..<n_slots s])
         \<longleftrightarrow> slots s i \<noteq> None" by simp
  qed
  with c show ?thesis by (simp add: models_def shape_of_def)
qed

lemma promised_context:
  assumes c: "consistent s" and k: "k < length (ctxs s)"
  shows "promised (shape_of s) (tgt s k) = Some (final_value (body_of (ctxs s ! k)))"
proof -
  let ?i = "tgt s k"
  from c k have d: "deferred s ?i = None" by (simp add: consistent_def)
  have "body_of (ctxs s ! k) \<in> set (map body_of (ctxs s))" using k by simp
  moreover have "target (body_of (ctxs s ! k)) = ?i" by (simp add: tgt_def)
  ultimately obtain b where
    b: "find (\<lambda>b. target b = ?i) (map body_of (ctxs s)) = Some b"
    by (cases "find (\<lambda>b. target b = ?i) (map body_of (ctxs s))") (auto simp: find_None_iff)
  then obtain j where j: "j < length (ctxs s)" "target (map body_of (ctxs s) ! j) = ?i"
    "b = map body_of (ctxs s) ! j"
    by (auto simp: find_Some_iff)
  then have "tgt s j = tgt s k" by (simp add: tgt_def)
  with distinct_tgt [OF c j(1) k] have "j = k" by blast
  with j have "b = body_of (ctxs s ! k)" using k by simp
  with b d show ?thesis by (simp add: promised_def shape_of_def)
qed

lemma models_body:
  assumes "models s a" "models s' a'" "bodies a' = bodies a" "k < length (ctxs s)"
  shows "k < length (ctxs s')" "body_of (ctxs s' ! k) = body_of (ctxs s ! k)"
proof -
  from assms(1-3) have m: "map body_of (ctxs s') = map body_of (ctxs s)"
    by (simp add: models_def)
  then have "length (ctxs s') = length (ctxs s)" by (metis length_map)
  with assms(4) show k: "k < length (ctxs s')" by simp
  from m have "map body_of (ctxs s') ! k = map body_of (ctxs s) ! k" by simp
  with k assms(4) show "body_of (ctxs s' ! k) = body_of (ctxs s ! k)" by simp
qed

lemma set_at_exit_visible:
  assumes c: "consistent s" and k: "k < length (ctxs s)"
    and b: "body_of (ctxs s ! k) = SetAtExit i v" and e: "slots s i \<noteq> None"
  shows "phase_of (ctxs s ! k) = Finished"
proof -
  from b have "tgt s k = i" by (simp add: tgt_def)
  with c k have "slots s i = expect (ctxs s ! k)" by (auto simp: consistent_def)
  with e b show ?thesis by (auto simp: expect_def split: if_splits)
qed

lemma task3_runs:
  "\<exists>s. task3 dflt sch boot = Inr ((), s)
     \<and> out s = [Println ''task3:'', Flush, SleepFor 5000, Println ''task3: creating futures...'',
          Flush, Printf (''r=%d'' @ [LF, CR]) [10], Println ''Waiting...'', Flush,
          Printf (''Done!'' @ [LF] @ ''Results are: %d %d %d'' @ [LF, CR]) [7, 8, 9],
          Flush, TaskSuspend]"
proof -
  from task3_sim [of dflt sch] obtain a where
    a: "sim (task3 dflt sch) shape0 () a"
    "printed a = printed (futures_shape dflt) @
         [Printf (''r=%d'' @ [LF, CR]) [10], Println ''Waiting...'', Flush,
          Printf (''Done!'' @ [LF] @ ''Results are: %d %d %d'' @ [LF, CR]) [7, 8, 9],
          Flush, TaskSuspend]" by blast
  from sim_run [OF a(1) models_boot] obtain s where
    s: "task3 dflt sch boot = Inr ((), s)" "models s a" by blast
  have "printed (futures_shape dflt) = [Println ''task3:'', Flush, SleepFor 5000,
      Println ''task3: creating futures...'', Flush]"
    by (cases dflt; simp add: futures_shape_def dispatched_def shape0_def)
  with s a(2) show ?thesis by (simp add: models_def)
qed

lemma find_append:
  "find P (xs @ ys) = (case find P xs of None \<Rightarrow> find P ys | Some x \<Rightarrow> Some x)"
  by (induction xs) simp_all

lemma find_no_target: "i \<notin> target ` set bs \<Longrightarrow> find (\<lambda>b. target b = i) bs = None"
  by (auto simp: find_None_iff)

lemma via_packaged_sim:
  assumes "idle a = []" "lazy a (fresh a) = None" "fresh a \<notin> target ` set (bodies a)"
    "fresh a \<notin> set (taken a)"
  shows "\<exists>a'. sim (via_packaged sch f) a (f ()) a'"
  unfolding via_packaged_def
  apply (rule exI)
  apply (rule sim_then [OF sim_packaged_task])
  apply (rule sim_then [OF sim_get_future])
  apply (rule sim_then [OF sim_thread_start])
   apply simp
  apply (rule sim_then [OF sim_take [where v = "f ()"]])
    apply (simp add: promised_def assms find_append find_no_target)
   apply (simp add: assms)
  apply (rule sim_then [OF sim_join])
   apply simp
  apply (rule sim_ret)
  done

lemma via_async_sim:
  assumes "lazy a (fresh a) = None" "fresh a \<notin> target ` set (bodies a)"
    "fresh a \<notin> set (taken a)"
  shows "\<exists>a'. sim (via_async sch f) a (f ()) a'"
  unfolding via_async_def
  apply (rule exI)
  apply (rule sim_then [OF sim_async_Async])
  apply (rule sim_take [where v = "f ()"])
   apply (simp add: promised_def assms find_append find_no_target)
  apply (simp add: assms)
  done

lemma shape_of_fresh:
  assumes c: "consistent s"
  shows "idle (shape_of s) = []" "lazy (shape_of s) (fresh (shape_of s)) = None"
    "fresh (shape_of s) \<notin> target ` set (bodies (shape_of s))"
    "fresh (shape_of s) \<notin> set (taken (shape_of s))"
proof -
  show "idle (shape_of s) = []" by (simp add: shape_of_def)
  from c show "lazy (shape_of s) (fresh (shape_of s)) = None"
    by (simp add: shape_of_def consistent_def)
  have "n_slots s \<notin> target ` body_of ` set (ctxs s)"
    using target_below [OF c, of "n_slots s"] by auto
  then show "fresh (shape_of s) \<notin> target ` set (bodies (shape_of s))"
    by (simp add: shape_of_def image_image)
  from c have "\<forall>i\<in>set (consumed s). i < n_slots s" by (simp add: consistent_def)
  then show "fresh (shape_of s) \<notin> set (taken (shape_of s))"
    by (auto simp: shape_of_def)
qed

lemma consistent_boot: "consistent boot"
  using models_boot by (simp add: models_def)

text \<open>The order in which results are taken does not change the values.\<close>

lemma take_all_ok:
  assumes "models s a" "distinct js" "\<forall>i\<in>set js. promised a i \<noteq> None \<and> i \<notin> set (taken a)"
  shows "\<exists>s'. take_all sch js s = Inr (map (\<lambda>i. the (promised a i)) js, s')"
  using assms
proof (induction js arbitrary: s a)
  case Nil
  show ?case by (simp add: ret_def)
next
  case (Cons i js)
  from Cons.prems(3) obtain v where v: "promised a i = Some v" "i \<notin> set (taken a)" by auto
  from get_ok [OF Cons.prems(1) v, of sch] obtain s1 where
    s1: "future_get sch i s = Inr (v, s1)" "models s1 (took i a)"
    unfolding took_def by blast
  have "\<forall>j\<in>set js. promised (took i a) j \<noteq> None \<and> j \<notin> set (taken (took i a))"
    using Cons.prems(2,3) by auto
  from Cons.IH [OF s1(2) _ this] Cons.prems(2) obtain s2 where
    "take_all sch js s1 = Inr (map (\<lambda>j. the (promised (took i a) j)) js, s2)" by auto
  with s1(1) v(1) show ?case by (simp add: then_do_def ret_def)
qed

lemma task3_any_order:
  assumes "js \<in> set [[0, 1, 2], [0, 2, 1], [1, 0, 2], [1, 2, 0], [2, 0, 1], [2, 1, 0]]"
  shows "\<exists>s1 vs s2. task3_futures dflt sch boot = Inr ((0, 1, 2), s1)
     \<and> take_all sch js s1 = Inr (vs, s2) \<and> sum_list vs = 10"
proof -
  from sim_run [OF task3_futures_sim models_boot] obtain s1 where
    s1: "task3_futures dflt sch boot = Inr ((0, 1, 2), s1)" "models s1 (futures_shape dflt)"
    by blast
  have d: "distinct js" using assms by auto
  have p: "\<forall>i\<in>set js. promised (futures_shape dflt) i \<noteq> None
      \<and> i \<notin> set (taken (futures_shape dflt))"
    using assms by (auto simp: futures_shape_facts)
  from take_all_ok [OF s1(2) d p, of sch] obtain s2 where
    s2: "take_all sch js s1 = Inr (map (\<lambda>i. the (promised (futures_shape dflt) i)) js, s2)"
    by blast
  have "sum_list (map (\<lambda>i. the (promised (futures_shape dflt) i)) js) = 10"
    using assms by (auto simp: futures_shape_facts)
  with s1(1) s2 show ?thesis by blast
qed

section \<open>The claims about the bootstrap\<close>

text \<open>
  C1 (as amended). When the millisecond counter reaches 2000, the Bootstrap Sequence runs
  its steps in this order: it initializes the serial port and the LED pin, waits for the
  threshold, registers the three top-level tasks, synchronizes the time base with the
  real-time clock, and starts the Scheduler. The spec puts the synchronization before the
  registration; the code registers first.
\<close>

theorem setup_order:
  assumes "\<exists>k. 2000 \<le> millis_at hw k"
  shows "follows code_order hw (power_on r)"
  using assms by (rule setup_steps_code_order)

theorem setup_order_witness:
  "(\<exists>k. 2000 \<le> millis_at demo k) \<and> follows code_order demo (power_on 0)"
  using setup_order [of demo 0] demo_clock by simp

theorem setup_order_counterexample:
  "\<not> follows spec_order demo (power_on 0)"
proof -
  have "follows code_order demo (power_on 0)"
    using demo_clock by (rule setup_steps_code_order)
  then show ?thesis
    by (auto simp: follows_def code_order_def spec_order_def split: option.splits)
qed

text \<open>
  C2 (as amended). When the millisecond counter reaches 2000, the Bootstrap Sequence
  synchronizes the time base with the real-time clock exactly twice before it starts the
  Scheduler: the first time right after registering the three tasks, the second time right
  after reading the real-time clock and setting it 3600 seconds ahead; the start of the
  Scheduler follows the second synchronization.
\<close>

theorem setup_syncs_twice:
  assumes "\<exists>k. 2000 \<le> millis_at hw k"
  shows "sync_count hw (power_on r) = Some 2
     \<and> landmarks hw (power_on r) =
         Some [TaskCreate Task1 ''task1'' 128 2,
               TaskCreate Task2 ''task2'' 8192 (configMAX_PRIORITIES hw - 1),
               TaskCreate Task3 ''task3'' 8192 3,
               SyncRtc, RtcGet, RtcSet (r + 3600), SyncRtc, StartScheduler]"
  using sync_count_prologue [OF assms] landmarks_prologue [OF assms] by simp

theorem setup_syncs_twice_witness:
  "(\<exists>k. 2000 \<le> millis_at demo k) \<and> sync_count demo (power_on 0) = Some 2
   \<and> landmarks demo (power_on 0) =
       Some [TaskCreate Task1 ''task1'' 128 2, TaskCreate Task2 ''task2'' 8192 9,
             TaskCreate Task3 ''task3'' 8192 3,
             SyncRtc, RtcGet, RtcSet 3600, SyncRtc, StartScheduler]"
proof -
  have "configMAX_PRIORITIES demo - 1 = 9" by (simp add: demo_def)
  with setup_syncs_twice [of demo 0] demo_clock show ?thesis by simp
qed

theorem setup_syncs_once_counterexample:
  "sync_count demo (power_on 0) \<noteq> Some 1"
  using sync_count_prologue [OF demo_clock, of 0] by simp

text \<open>
  C6. Starting the Scheduler never returns: \<open>vTaskStartScheduler\<close> has no result on any
  board, and so \<open>setup\<close>, whose last call it is, has none either. The Scheduler is marked
  started when it takes over.
\<close>

theorem scheduler_start_never_returns:
  "vTaskStartScheduler s = None \<and> setup_fn hw s0 = None
   \<and> scheduler (scheduler_enter s) = Started"
  by (simp add: vTaskStartScheduler_def setup_fn_def scheduler_loop_None scheduler_enter_def
      emit_def split: option.splits)

text \<open>
  C8. The Bootstrap Sequence gets past its wait exactly when some reading of the
  millisecond counter is at least 2000. When it does, the trace holds such a reading, and
  before the first of them nothing was written to the serial port and no task was
  registered.
\<close>

theorem setup_waits_for_threshold:
  "((\<exists>s. setup_prologue hw (power_on r) = Some s) \<longleftrightarrow> (\<exists>k. 2000 \<le> millis_at hw k))
   \<and> (setup_prologue hw (power_on r) = Some s \<longrightarrow>
        (\<exists>t. Millis t \<in> set (trace s) \<and> 2000 \<le> t)
        \<and> filter is_output (before_threshold (trace s)) = []
        \<and> filter is_registration (before_threshold (trace s)) = [])"
proof (intro conjI impI)
  show "(\<exists>s. setup_prologue hw (power_on r) = Some s) \<longleftrightarrow> (\<exists>k. 2000 \<le> millis_at hw k)"
    by (rule setup_prologue_Some_iff)
next
  assume "setup_prologue hw (power_on r) = Some s"
  from setup_prologue_shape [OF this] obtain n where
    n: "\<not> millis_at hw n < 2000" "\<forall>j<n. millis_at hw j < 2000"
    and tr: "trace s = before_wait hw @ polled hw 0 (Suc n) @ after_wait hw r" by blast
  have bt: "before_threshold (trace s) = before_wait hw @ polled hw 0 n"
    unfolding tr using n by (rule before_threshold_prologue)
  have "Millis (millis_at hw n) \<in> set (trace s)"
    by (simp add: tr polled_snoc)
  with n(1) show "\<exists>t. Millis t \<in> set (trace s) \<and> 2000 \<le> t"
    by (auto simp: not_less)
  show "filter is_output (before_threshold (trace s)) = []"
    by (simp add: bt quiet_polled before_wait_def)
  show "filter is_registration (before_threshold (trace s)) = []"
    by (simp add: bt quiet_polled before_wait_def)
qed

theorem setup_waits_for_threshold_witness:
  "\<exists>s. setup_prologue demo (power_on 0) = Some s
     \<and> (\<exists>t. Millis t \<in> set (trace s) \<and> 2000 \<le> t)
     \<and> filter is_output (before_threshold (trace s)) = []
     \<and> filter is_registration (before_threshold (trace s)) = []"
proof -
  from setup_waits_for_threshold [of demo 0] demo_clock
  obtain s where s: "setup_prologue demo (power_on 0) = Some s" by blast
  with setup_waits_for_threshold [of demo 0 s] show ?thesis by blast
qed

text \<open>
  C9. \<open>print_time\<close> returns true exactly when \<open>strftime\<close> returns a positive length. In
  that case it writes one line to the serial port, the formatted buffer up to its first
  NUL; otherwise it writes nothing. It always returns.
\<close>

theorem print_time_writes_iff_formatted:
  "fst (print_time hw s) = (0 < fst (strftime_c hw (replicate 32 NUL) 32 ''%c UTC'' (sys_time s)))
   \<and> outputs (trace (snd (print_time hw s))) =
       outputs (trace s) @
         (if fst (print_time hw s)
          then [Println (c_str (snd (strftime_c hw (replicate 32 NUL) 32 ''%c UTC'' (sys_time s))))]
          else [])"
  by (simp add: print_time_fst print_time_trace outputs_def stamp_def)

theorem print_time_writes_iff_formatted_witness:
  "fst (print_time demo (power_on 0)) = False
   \<and> outputs (trace (snd (print_time demo (power_on 0)))) = []
   \<and> fst (print_time demo (sync_rtc (power_on 3600))) = True
   \<and> outputs (trace (snd (print_time demo (sync_rtc (power_on 3600))))) =
       [Println ''Thu Jan  1 01:00:00 1970 UTC'']"
  using print_time_writes_iff_formatted [of demo "power_on 0"]
    print_time_writes_iff_formatted [of demo "sync_rtc (power_on 3600)"]
  by (simp add: demo_def power_on_def sync_rtc_def emit_def outputs_def c_str_def NUL_def)

text \<open>
  C10. \<open>task1\<close> never returns: however many rounds of its loop are run, the loop is still
  going. After \<open>n\<close> rounds the trace has grown by \<open>n\<close> times the same four calls: LED
  low, a delay of \<open>pdMS_TO_TICKS(250)\<close> ticks, LED high, the same delay. The levels written
  to the LED in those rounds alternate, starting low.
\<close>

theorem task1_blinks_forever:
  "\<exists>s'. task1 n hw s = Running s'
     \<and> trace s' = trace s @ concat (replicate n
          [DigitalWrite (LED_BUILTIN hw) LOW, TaskDelay (pdMS_TO_TICKS hw 250),
           DigitalWrite (LED_BUILTIN hw) HIGH, TaskDelay (pdMS_TO_TICKS hw 250)])
     \<and> led_writes (drop (length (trace s)) (trace s')) = concat (replicate n [LOW, HIGH])
     \<and> alternating (led_writes (drop (length (trace s)) (trace s')))"
proof (intro exI conjI)
  let ?s' = "(task1_body hw ^^ n) s"
  show "task1 n hw s = Running ?s'" by (rule task1_run)
  have tr: "trace ?s' = trace s @ concat (replicate n (blink hw))"
    by (rule task1_iter_trace)
  then show "trace ?s' = trace s @ concat (replicate n
          [DigitalWrite (LED_BUILTIN hw) LOW, TaskDelay (pdMS_TO_TICKS hw 250),
           DigitalWrite (LED_BUILTIN hw) HIGH, TaskDelay (pdMS_TO_TICKS hw 250)])"
    by (simp add: blink_def)
  from tr show "led_writes (drop (length (trace s)) (trace ?s')) = concat (replicate n [LOW, HIGH])"
    by (simp add: led_writes_blinks)
  from tr show "alternating (led_writes (drop (length (trace s)) (trace ?s')))"
    by (simp add: led_writes_blinks alternating_blinks)
qed

section \<open>The claims about \<open>task3\<close>\<close>

text \<open>
  C3. Under every schedule, and whichever policy \<open>std::async\<close> takes when none is given,
  \<open>task3\<close> creates its three futures and the sum of their three \<open>get()\<close> results is 10;
  \<open>task3\<close> then prints 10 and passes its assertions. The order in which the producers
  complete is the schedule, so the sum does not depend on it.
\<close>

theorem task3_sum_is_ten:
  "(\<exists>s1 s2. task3_futures dflt sch boot = Inr ((0, 1, 2), s1)
      \<and> task3_sum sch (0, 1, 2) s1 = Inr (10, s2))
   \<and> (\<exists>s. task3 dflt sch boot = Inr ((), s) \<and> Printf (''r=%d'' @ [LF, CR]) [10] \<in> set (out s))"
proof
  from sim_run [OF task3_futures_sim models_boot] obtain s1 where
    s1: "task3_futures dflt sch boot = Inr ((0, 1, 2), s1)" "models s1 (futures_shape dflt)"
    by blast
  from sim_run [OF task3_sum_sim s1(2)] obtain s2 where
    "task3_sum sch (0, 1, 2) s1 = Inr (10, s2)" by blast
  with s1(1) show "\<exists>s1 s2. task3_futures dflt sch boot = Inr ((0, 1, 2), s1)
      \<and> task3_sum sch (0, 1, 2) s1 = Inr (10, s2)" by blast
next
  from task3_runs [of dflt sch] obtain s where
    s: "task3 dflt sch boot = Inr ((), s)"
    "out s = [Println ''task3:'', Flush, SleepFor 5000, Println ''task3: creating futures...'',
          Flush, Printf (''r=%d'' @ [LF, CR]) [10], Println ''Waiting...'', Flush,
          Printf (''Done!'' @ [LF] @ ''Results are: %d %d %d'' @ [LF, CR]) [7, 8, 9],
          Flush, TaskSuspend]" by blast
  then have "Printf (''r=%d'' @ [LF, CR]) [10] \<in> set (out s)" by simp
  with s(1) show "\<exists>s. task3 dflt sch boot = Inr ((), s)
      \<and> Printf (''r=%d'' @ [LF, CR]) [10] \<in> set (out s)" by blast
qed

text \<open>
  C4. Let a context of a consistent state have the body \<open>p.set_value_at_thread_exit(v)\<close>,
  the result of \<open>p\<close> not yet taken. Then after any number of steps of the other contexts,
  under any schedule, the slot of \<open>p\<close> is empty unless that context has finished; and
  \<open>get()\<close> returns, with the value \<open>v\<close>, in a state where that context has finished.
\<close>

theorem set_at_exit_after_wind_down:
  assumes "consistent s" and "k < length (ctxs s)"
    and "body_of (ctxs s ! k) = SetAtExit i v" and "i \<notin> set (consumed s)"
  shows "(slots ((sched_step sch ^^ n) s) i = None
            \<or> phase_of (ctxs ((sched_step sch ^^ n) s) ! k) = Finished)
     \<and> (\<exists>s'. future_get sch' i s = Inr (v, s') \<and> phase_of (ctxs s' ! k) = Finished)"
proof
  let ?t = "(sched_step sch ^^ n) s"
  have ev: "evolves s ?t" by (rule evolves_sched_steps)
  then have ct: "consistent ?t" using assms(1) by (rule evolves_consistent)
  from evolves_body [OF ev assms(2)] assms(3) have
    kt: "k < length (ctxs ?t)" "body_of (ctxs ?t ! k) = SetAtExit i v" by simp_all
  show "slots ?t i = None \<or> phase_of (ctxs ?t ! k) = Finished"
    using set_at_exit_visible [OF ct kt] by blast
next
  have m: "models s (shape_of s)" using assms(1) by (rule models_shape_of)
  have i: "tgt s k = i" using assms(3) by (simp add: tgt_def)
  from promised_context [OF assms(1,2)] assms(3) i
  have p: "promised (shape_of s) i = Some v" by simp
  have t: "i \<notin> set (taken (shape_of s))" using assms(4) by (simp add: shape_of_def)
  from get_ok [OF m p t, of sch'] obtain s' where
    s': "future_get sch' i s = Inr (v, s')"
    "models s' ((force i (shape_of s))\<lparr>taken := i # taken (shape_of s)\<rparr>)"
    "slots s' i = Some v" by blast
  from models_body [OF m s'(2) _ assms(2)] assms(3) have
    ks: "k < length (ctxs s')" "body_of (ctxs s' ! k) = SetAtExit i v" by simp_all
  from s'(2) have "consistent s'" by (simp add: models_def)
  from set_at_exit_visible [OF this ks] s'(3) have "phase_of (ctxs s' ! k) = Finished" by simp
  with s'(1) show "\<exists>s'. future_get sch' i s = Inr (v, s') \<and> phase_of (ctxs s' ! k) = Finished"
    by blast
qed

lemma consistent_promise_pending: "consistent promise_pending"
  by (simp add: promise_pending_def boot_def consistent_def tgt_def expect_def runs_of_def)

theorem set_at_exit_after_wind_down_witness:
  "consistent promise_pending \<and> 0 < length (ctxs promise_pending)
   \<and> body_of (ctxs promise_pending ! 0) = SetAtExit 0 9 \<and> 0 \<notin> set (consumed promise_pending)
   \<and> (slots ((sched_step round_robin ^^ 1) promise_pending) 0 = None
        \<or> phase_of (ctxs ((sched_step round_robin ^^ 1) promise_pending) ! 0) = Finished)
   \<and> (\<exists>s'. future_get round_robin 0 promise_pending = Inr (9, s')
        \<and> phase_of (ctxs s' ! 0) = Finished)"
proof -
  have h: "0 < length (ctxs promise_pending)"
    "body_of (ctxs promise_pending ! 0) = SetAtExit 0 9" "0 \<notin> set (consumed promise_pending)"
    by (simp_all add: promise_pending_def boot_def)
  from set_at_exit_after_wind_down [OF consistent_promise_pending h,
      where sch = round_robin and n = 1 and sch' = round_robin]
    consistent_promise_pending h show ?thesis by simp
qed

text \<open>
  C5. From any consistent state and under any two schedules, wrapping a callable in a
  packaged task, running it on a thread and taking its result gives the value the callable
  returns, and so does eager dispatch of the same callable. In \<open>task3\<close> the packaged
  callable delivers 7, the eager one 8 (and the promise 9).
\<close>

theorem packaged_task_like_async:
  assumes "consistent s"
  shows "(\<exists>s1 s2. via_packaged sch f s = Inr (f (), s1) \<and> via_async sch' f s = Inr (f (), s2))
     \<and> (\<exists>t. task3 dflt sch boot = Inr ((), t)
          \<and> Printf (''Done!'' @ [LF] @ ''Results are: %d %d %d'' @ [LF, CR]) [7, 8, 9] \<in> set (out t))"
proof
  have m: "models s (shape_of s)" using assms by (rule models_shape_of)
  from via_packaged_sim [OF shape_of_fresh [OF assms], of sch f] obtain a1 where
    "sim (via_packaged sch f) (shape_of s) (f ()) a1" by blast
  from sim_run [OF this m] obtain s1 where s1: "via_packaged sch f s = Inr (f (), s1)" by blast
  from via_async_sim [OF shape_of_fresh(2-4) [OF assms], of sch' f] obtain a2 where
    "sim (via_async sch' f) (shape_of s) (f ()) a2" by blast
  from sim_run [OF this m] obtain s2 where "via_async sch' f s = Inr (f (), s2)" by blast
  with s1 show "\<exists>s1 s2. via_packaged sch f s = Inr (f (), s1) \<and> via_async sch' f s = Inr (f (), s2)"
    by blast
next
  from task3_runs [of dflt sch] obtain t where
    t: "task3 dflt sch boot = Inr ((), t)"
    "out t = [Println ''task3:'', Flush, SleepFor 5000, Println ''task3: creating futures...'',
          Flush, Printf (''r=%d'' @ [LF, CR]) [10], Println ''Waiting...'', Flush,
          Printf (''Done!'' @ [LF] @ ''Results are: %d %d %d'' @ [LF, CR]) [7, 8, 9],
          Flush, TaskSuspend]" by blast
  then have "Printf (''Done!'' @ [LF] @ ''Results are: %d %d %d'' @ [LF, CR]) [7, 8, 9] \<in> set (out t)"
    by simp
  with t(1) show "\<exists>t. task3 dflt sch boot = Inr ((), t)
      \<and> Printf (''Done!'' @ [LF] @ ''Results are: %d %d %d'' @ [LF, CR]) [7, 8, 9] \<in> set (out t)"
    by blast
qed

theorem packaged_task_like_async_witness:
  "consistent boot
   \<and> (\<exists>s1 s2. via_packaged round_robin (\<lambda>_. 7) boot = Inr (7, s1)
        \<and> via_async round_robin (\<lambda>_. 7) boot = Inr (7, s2))"
  using packaged_task_like_async [OF consistent_boot, of round_robin "\<lambda>_. 7" round_robin]
    consistent_boot by simp

text \<open>
  C7. Under every schedule, in \<open>task3\<close> the callable of the deferred future \<open>result2\<close> has
  not run after line 93, nor after either of the other two results was taken, and its slot
  is empty when \<open>result2.get()\<close> is called. That call runs it once, on the caller, and
  returns 5. No context was spawned for it: the contexts are those of the eager futures,
  as many after the call as after line 93.
\<close>

theorem deferred_runs_at_get:
  "\<exists>s1 v0 s2 v1 s3 s4.
      task3_futures dflt sch boot = Inr ((0, 1, 2), s1)
    \<and> future_get sch 0 s1 = Inr (v0, s2) \<and> future_get sch 1 s2 = Inr (v1, s3)
    \<and> future_get sch 2 s3 = Inr (5, s4)
    \<and> runs_of 2 s1 = [] \<and> runs_of 2 s2 = [] \<and> runs_of 2 s3 = [] \<and> slots s3 2 = None
    \<and> runs_of 2 s4 = [(2, Caller)]
    \<and> length (ctxs s1) = (if dflt = Async then 2 else 1)
    \<and> length (ctxs s4) = length (ctxs s1)
    \<and> 2 \<notin> target ` body_of ` set (ctxs s4)"
proof -
  let ?a1 = "futures_shape dflt"
  from sim_run [OF task3_futures_sim models_boot] obtain s1 where
    s1: "task3_futures dflt sch boot = Inr ((0, 1, 2), s1)" "models s1 ?a1" by blast
  have p0: "promised ?a1 0 = Some 2" "0 \<notin> set (taken ?a1)"
    by (simp_all add: futures_shape_facts)
  from get_ok [OF s1(2) p0, of sch] obtain s2 where
    s2: "future_get sch 0 s1 = Inr (2, s2)" "models s2 (took 0 ?a1)"
    unfolding took_def by blast
  have p1: "promised (took 0 ?a1) 1 = Some 3" "1 \<notin> set (taken (took 0 ?a1))"
    by (simp_all add: futures_shape_facts)
  from get_ok [OF s2(2) p1, of sch] obtain s3 where
    s3: "future_get sch 1 s2 = Inr (3, s3)" "models s3 (took 1 (took 0 ?a1))"
    unfolding took_def by blast
  let ?a3 = "took 1 (took 0 ?a1)"
  have p2: "promised ?a3 2 = Some 5" "2 \<notin> set (taken ?a3)"
    by (simp_all add: futures_shape_facts)
  from get_ok [OF s3(2) p2, of sch] obtain s4 where
    s4: "future_get sch 2 s3 = Inr (5, s4)" "models s4 (took 2 ?a3)" "slots s4 2 = Some 5"
    unfolding took_def by blast
  have lz: "lazy ?a3 2 = Some (\<lambda>_. 5)" by (simp add: futures_shape_facts)
  have nf: "2 \<notin> set (forced ?a3)"
    by (simp add: took_def force_def futures_shape_facts)
  from s3(2) lz nf have e3: "slots s3 2 = None" unfolding models_def by auto
  from s3(2) have c3: "consistent s3" and d3: "deferred s3 2 = Some (\<lambda>_. 5)"
    by (simp_all add: models_def futures_shape_facts)
  from c3 d3 have "runs_of 2 s3 = (if slots s3 2 = None then [] else [(2, Caller)])"
    unfolding consistent_def by blast
  with e3 have r3: "runs_of 2 s3 = []" by simp
  have quiet: "\<And>t a. models t a \<Longrightarrow> lazy a 2 = Some (\<lambda>_. 5) \<Longrightarrow> 2 \<notin> set (forced a)
      \<Longrightarrow> runs_of 2 t = []"
  proof -
    fix t a assume m: "models t a" and l: "lazy a 2 = Some (\<lambda>_. 5)" and f: "2 \<notin> set (forced a)"
    from m l f have e: "slots t 2 = None" unfolding models_def by auto
    from m l have "consistent t" "deferred t 2 = Some (\<lambda>_. 5)" by (simp_all add: models_def)
    then have "runs_of 2 t = (if slots t 2 = None then [] else [(2, Caller)])"
      unfolding consistent_def by blast
    with e show "runs_of 2 t = []" by simp
  qed
  have r1: "runs_of 2 s1 = []"
    by (rule quiet [OF s1(2)]) (simp_all add: futures_shape_facts)
  have r2: "runs_of 2 s2 = []"
    by (rule quiet [OF s2(2)]) (simp_all add: futures_shape_facts took_def force_def)
  from s4(2) have c4: "consistent s4" and d4: "deferred s4 2 = Some (\<lambda>_. 5)"
    by (simp_all add: models_def futures_shape_facts)
  from c4 d4 have "runs_of 2 s4 = (if slots s4 2 = None then [] else [(2, Caller)])"
    unfolding consistent_def by blast
  with s4(3) have r4: "runs_of 2 s4 = [(2, Caller)]" by simp
  from s1(2) have "length (ctxs s1) = length (bodies ?a1)" by (metis models_def length_map)
  then have l1: "length (ctxs s1) = (if dflt = Async then 2 else 1)"
    by (simp add: futures_shape_facts)
  from s4(2) have "length (ctxs s4) = length (bodies (took 2 ?a3))"
    by (metis models_def length_map)
  with l1 have l4: "length (ctxs s4) = length (ctxs s1)" by (simp add: futures_shape_facts)
  from d4 have "deferred s4 2 \<noteq> None" by simp
  from deferred_not_target [OF c4 this] have nt: "2 \<notin> target ` body_of ` set (ctxs s4)" .
  from s1(1) s2(1) s3(1) s4(1) r1 r2 r3 e3 r4 l1 l4 nt show ?thesis by blast
qed

end
